theory Spec2Isabelle
  imports
    Complex_Main
    "HOL-Library.Multiset"
    "HOL-Library.Log_Nat"
    "HOL-Library.Signed_Division"
begin

section \<open>Data model of main.go\<close>

text \<open>
  A Go \<^verbatim>\<open>error\<close> value is modelled as \<open>error option\<close>, \<open>None\<close> being \<^verbatim>\<open>nil\<close>.
  The worker compares the error of \<^verbatim>\<open>users.Insert\<close> against the two sentinels
  \<^verbatim>\<open>io.EOF\<close> and \<^verbatim>\<open>io.ErrUnexpectedEOF\<close>; every other error is kept with its text.
\<close>

datatype error = EOF | ErrUnexpectedEOF | OtherError string

text \<open>
  \<^verbatim>\<open>type Job struct { JobId int }\<close> and
  \<^verbatim>\<open>type JobResult struct { JobId int; WorkerId int; Error error }\<close>.
  Both structs name their first field \<^verbatim>\<open>JobId\<close>; the selector of the result is
  called \<open>ResJobId\<close> here. Jobs and results are never mutated after their creation, so the
  pointers the channels carry are modelled by the values they point to.
\<close>

datatype Job = Job (JobId: int)

datatype JobResult = JobResult (ResJobId: int) (WorkerId: int) (Error: "error option")

text \<open>The lines written with \<^verbatim>\<open>log.Printf\<close>, one constructor per format string.\<close>

datatype log_line =
    LogRunning int int
  | LogConnecting int
  | LogUnableToConnect int error
  | LogProgress int
  | LogJobFailed int int error
  | LogClosing
  | LogCompleted int
  | LogAverage int

datatype panic = DivideByZero | SendOnClosedChannel | CloseOfClosedChannel


section \<open>The progress percentage (main, line 88)\<close>

text \<open>
  \<^verbatim>\<open>percentage := int(math.Ceil(float64(i) / float64(*jobs) * 100))\<close> is computed in
  IEEE-754 binary64. A finite binary64 value is a real number, and each conversion,
  division and multiplication returns the exact result rounded to 53 significant bits,
  ties to even. \<open>float64\<close> is that rounding on the reals; the exponent range of
  binary64 is not modelled, since every value that occurs here lies between \<open>2\<^sup>-\<^sup>6\<^sup>4\<close>
  and \<open>2\<^sup>6\<^sup>4\<close>.
\<close>

definition round_half_even :: "real \<Rightarrow> int" where
  "round_half_even x =
     (let f = \<lfloor>x\<rfloor>; d = x - of_int f
      in if d < 1 / 2 then f
         else if 1 / 2 < d then f + 1
         else if even f then f else f + 1)"

text \<open>\<open>ilog2 x\<close> is the exponent \<open>e\<close> with \<open>2\<^sup>e \<le> x < 2\<^sup>e\<^sup>+\<^sup>1\<close>, for \<open>x > 0\<close>.\<close>

definition ilog2 :: "real \<Rightarrow> int" where
  "ilog2 x = (if 1 \<le> x then bitlen \<lfloor>x\<rfloor> - 1 else - bitlen (\<lceil>1 / x\<rceil> - 1))"

definition float64 :: "real \<Rightarrow> real" where
  "float64 x =
     (if x = 0 then 0
      else let u = 2 powi (ilog2 \<bar>x\<bar> - 52)
           in sgn x * of_int (round_half_even (\<bar>x\<bar> / u)) * u)"

definition percentage :: "int \<Rightarrow> int \<Rightarrow> int" where
  "percentage jobs i =
     \<lceil>float64 (float64 (float64 (of_int i) / float64 (of_int jobs)) * 100)\<rceil>"


section \<open>The result loop of main (lines 84 to 103)\<close>

text \<open>
  Lines 88 to 94: the progress announcement made at the top of iteration \<open>i\<close>, before the
  result of that iteration is received. It updates \<^verbatim>\<open>announced\<close> and may write one line.
\<close>

definition announce :: "int \<Rightarrow> int \<Rightarrow> int \<times> log_line list \<Rightarrow> int \<times> log_line list" where
  "announce jobs i = (\<lambda>(announced, lg).
     let percentage = percentage jobs i
     in if percentage > announced
        then (percentage,
              if percentage smod 5 = 0 then lg @ [LogProgress percentage] else lg)
        else (announced, lg))"

text \<open>Lines 98 to 101: what the loop does with the result it has received.\<close>

definition record_result :: "JobResult \<Rightarrow> log_line list \<Rightarrow> log_line list" where
  "record_result result lg =
     (case Error result of
        Some e \<Rightarrow> lg @ [LogJobFailed (ResJobId result) (WorkerId result) e]
      | None \<Rightarrow> lg)"

text \<open>
  The loop itself, run against the sequence \<open>rs\<close> of results that the results channel
  delivers. The receive of line 97 blocks on an empty channel: when \<open>rs\<close> is used up
  before \<open>i\<close> reaches \<^verbatim>\<open>*jobs\<close> the loop does not return, which is the value \<open>None\<close>.
  On exit the loop returns \<open>i\<close>, \<^verbatim>\<open>announced\<close>, the log and the results it left behind.
\<close>

fun result_loop ::
  "int \<Rightarrow> int \<Rightarrow> int \<Rightarrow> log_line list \<Rightarrow> JobResult list
     \<Rightarrow> (int \<times> int \<times> log_line list \<times> JobResult list) option" where
  "result_loop jobs i announced lg rs =
     (if i < jobs
      then (case announce jobs i (announced, lg) of
              (announced', lg') \<Rightarrow>
                (case rs of
                   [] \<Rightarrow> None
                 | result # rs' \<Rightarrow>
                     result_loop jobs (i + 1) announced' (record_result result lg') rs'))
      else Some (i, announced, lg, rs))"

declare result_loop.simps [simp del]


section \<open>The statistics of main (lines 110 to 115)\<close>

text \<open>
  \<^verbatim>\<open>ns := duration.Nanoseconds() / int64(*jobs)\<close> is a division of two \<^verbatim>\<open>int64\<close>: it
  panics when the divisor is zero, truncates towards zero and wraps to 64 bits.
  \<open>elapsed\<close> is the reading of the clock, \<^verbatim>\<open>time.Now().Sub(start)\<close>, in nanoseconds.
  \<^verbatim>\<open>time.Unix(0, ns).Sub(time.Unix(0, 0))\<close> is the duration of \<open>ns\<close> nanoseconds.
\<close>

definition int64_div :: "int \<Rightarrow> int \<Rightarrow> panic + int" where
  "int64_div a b = (if b = 0 then Inl DivideByZero else Inr (signed_take_bit 63 (a sdiv b)))"

definition statistics :: "int \<Rightarrow> int \<Rightarrow> log_line list \<Rightarrow> panic + (int \<times> log_line list)" where
  "statistics jobs elapsed lg =
     (case int64_div elapsed jobs of
        Inl p \<Rightarrow> Inl p
      | Inr ns \<Rightarrow> Inr (ns, lg @ [LogCompleted elapsed, LogAverage ns]))"


section \<open>The job source (lines 77 to 81) and connect (lines 171 to 188)\<close>

text \<open>
  The goroutine of lines 77 to 81 only sends on the job queue; \<open>sent\<close> collects the jobs
  it has sent, in order. A send may wait for room in the buffer, it never changes the
  value sent.
\<close>

function source_loop :: "int \<Rightarrow> int \<Rightarrow> Job list \<Rightarrow> Job list" where
  "source_loop jobs i sent =
     (if i < jobs then source_loop jobs (i + 1) (sent @ [Job i]) else sent)"
  by pat_completeness auto
termination
  by (relation "measure (\<lambda>(jobs, i, sent). nat (jobs - i))") auto

declare source_loop.simps [simp del]

text \<open>
  \<^verbatim>\<open>connect\<close> loops until \<^verbatim>\<open>mgo.Dial\<close> returns no error. \<open>dial n\<close> is the error of the
  \<open>n\<close>-th call of \<^verbatim>\<open>mgo.Dial\<close> (\<open>None\<close> for \<^verbatim>\<open>nil\<close>); the handle returned is identified by
  the number of the call that opened its session. The loop has no exit but the
  \<^verbatim>\<open>return\<close>, so it may run forever: not returning is the value \<open>None\<close>.
\<close>

partial_function (option) connect ::
  "int \<Rightarrow> (nat \<Rightarrow> error option) \<Rightarrow> nat \<Rightarrow> log_line list \<Rightarrow> (nat \<times> log_line list) option" where
  "connect workerId dial n lg =
     (case dial n of
        Some e \<Rightarrow>
          connect workerId dial (n + 1)
            (lg @ [LogConnecting workerId, LogUnableToConnect workerId e])
      | None \<Rightarrow> Some (n, lg @ [LogConnecting workerId]))"

text \<open>The lines a run of \<^verbatim>\<open>connect\<close> writes when its first \<open>n\<close> calls of \<^verbatim>\<open>mgo.Dial\<close> fail.\<close>

definition attempts :: "int \<Rightarrow> (nat \<Rightarrow> error option) \<Rightarrow> nat \<Rightarrow> log_line list" where
  "attempts workerId dial n =
     concat (map (\<lambda>k. [LogConnecting workerId, LogUnableToConnect workerId (the (dial k))])
               [0..<n])"


section \<open>Reading the log\<close>

fun progress_lines :: "log_line list \<Rightarrow> int list" where
  "progress_lines [] = []"
| "progress_lines (LogProgress p # lg) = p # progress_lines lg"
| "progress_lines (_ # lg) = progress_lines lg"

fun failure_lines :: "log_line list \<Rightarrow> (int \<times> int \<times> error) list" where
  "failure_lines [] = []"
| "failure_lines (LogJobFailed j w e # lg) = (j, w, e) # failure_lines lg"
| "failure_lines (_ # lg) = failure_lines lg"

text \<open>The failures among a sequence of results, as the log reports them.\<close>

fun failures :: "JobResult list \<Rightarrow> (int \<times> int \<times> error) list" where
  "failures [] = []"
| "failures (r # rs) =
     (case Error r of
        Some e \<Rightarrow> (ResJobId r, WorkerId r, e) # failures rs
      | None \<Rightarrow> failures rs)"

text \<open>
  The progress notifications of a whole run of the result loop, from \<^verbatim>\<open>announced := 0\<close>
  and an empty log.
\<close>

definition notifications :: "int \<Rightarrow> JobResult list \<Rightarrow> int list option" where
  "notifications jobs rs =
     (case result_loop jobs 0 0 [] rs of
        None \<Rightarrow> None
      | Some (i, announced, lg, rest) \<Rightarrow> Some (progress_lines lg))"


section \<open>The program as a transition system\<close>

text \<open>
  The goroutines of the program (main, the job source of lines 77 to 81, the workers, and
  the re-submissions of lines 149 to 151) run interleaved; the Go scheduler may run any
  goroutine that is not blocked. One step of the model is one channel operation or one
  call of the database driver, taken by one goroutine.

  The configuration is what the command line and \<^verbatim>\<open>make\<close> fix: \<^verbatim>\<open>*jobs\<close>, \<^verbatim>\<open>*workers\<close> and
  the capacities of the two buffered channels, both 512 in main. \<^verbatim>\<open>*jobs\<close> is a Go
  \<^verbatim>\<open>int\<close>; the counters compared against it never exceed it, so no counter wraps around
  and they are modelled as integers.
\<close>

record config =
  jobs :: int
  workers :: int
  queue_cap :: nat
  results_cap :: nat

definition main_config :: "int \<Rightarrow> int \<Rightarrow> config" where
  "main_config j w = \<lparr>jobs = j, workers = w, queue_cap = 512, results_cap = 512\<rparr>"

text \<open>
  Where a worker stands: in the loop of \<^verbatim>\<open>connect\<close> before a call of \<^verbatim>\<open>mgo.Dial\<close>; at the
  \<^verbatim>\<open>range queue\<close> of line 136; before the \<^verbatim>\<open>Insert\<close> of line 139 with the job it has
  received; before the send of line 157 with the result it has built; or returned. The
  variable \<^verbatim>\<open>count\<close> of the worker is only ever incremented and is left out.
\<close>

datatype worker_pc = Connecting | Receiving | Inserting Job | Sending JobResult | Returned

text \<open>
  Where main stands: at the loop condition of line 85; at the receive of line 97; or
  after the \<^verbatim>\<open>close\<close> of line 108.
\<close>

datatype main_pc = LoopHead | AwaitResult | AfterClose

datatype status = Running | Exited | Panicked panic

text \<open>
  \<open>queue\<close> and \<open>results\<close> are the buffers of the two channels, oldest element first.
  \<open>src_i\<close> is the counter of the job source, \<open>main_i\<close> and \<open>announced\<close> the variables of
  main's loop. \<open>retries\<close> holds the jobs of the goroutines started at line 149 that have
  not completed their send yet. \<open>received\<close> is a history variable: the results main has
  taken from the results channel, in order (the program itself drops them).
\<close>

record state =
  queue :: "Job list"
  queue_closed :: bool
  results :: "JobResult list"
  src_i :: int
  pool :: "worker_pc list"
  retries :: "Job list"
  main_i :: int
  announced :: int
  mpc :: main_pc
  received :: "JobResult list"
  logged :: "log_line list"
  status :: status

definition init :: "config \<Rightarrow> state" where
  "init c =
     \<lparr>queue = [], queue_closed = False, results = [], src_i = 0,
      pool = replicate (nat (workers c)) Connecting, retries = [],
      main_i = 0, announced = 0, mpc = LoopHead, received = [],
      logged = [LogRunning (jobs c) (workers c)], status = Running\<rparr>"

text \<open>
  The steps. \<open>Dial w err\<close> and \<open>Insert w err\<close> carry the error the driver returns to
  worker \<open>w\<close>, \<open>Finish elapsed\<close> the reading of the clock; these are the choices of the
  environment. \<open>RetryPush k\<close> is the send of the \<open>k\<close>-th waiting re-submission.
\<close>

datatype action =
    SourcePush
  | Dial nat "error option"
  | Receive nat
  | Insert nat "error option"
  | Send nat
  | RetryPush nat
  | Announce
  | Collect
  | CloseQueue
  | Finish int

text \<open>
  A send on a closed channel panics; a send on a full buffer and a receive on an empty,
  open one block (no step: \<open>None\<close>); a receive on an empty, closed channel ends the
  \<^verbatim>\<open>range\<close> loop.
\<close>

fun fire :: "config \<Rightarrow> action \<Rightarrow> state \<Rightarrow> state option" where
  "fire c SourcePush s =
     (if src_i s < jobs c
      then if queue_closed s then Some (s\<lparr>status := Panicked SendOnClosedChannel\<rparr>)
           else if length (queue s) < queue_cap c
           then Some (s\<lparr>queue := queue s @ [Job (src_i s)], src_i := src_i s + 1\<rparr>)
           else None
      else None)"
| "fire c (Dial w err) s =
     (if w < length (pool s) \<and> pool s ! w = Connecting
      then (case err of
              Some e \<Rightarrow>
                Some (s\<lparr>logged := logged s @ [LogConnecting (int w), LogUnableToConnect (int w) e]\<rparr>)
            | None \<Rightarrow>
                Some (s\<lparr>logged := logged s @ [LogConnecting (int w)],
                        pool := (pool s)[w := Receiving]\<rparr>))
      else None)"
| "fire c (Receive w) s =
     (if w < length (pool s) \<and> pool s ! w = Receiving
      then (case queue s of
              job # q \<Rightarrow> Some (s\<lparr>queue := q, pool := (pool s)[w := Inserting job]\<rparr>)
            | [] \<Rightarrow> if queue_closed s then Some (s\<lparr>pool := (pool s)[w := Returned]\<rparr>) else None)
      else None)"
| "fire c (Insert w err) s =
     (if w < length (pool s)
      then (case pool s ! w of
              Inserting job \<Rightarrow>
                if err = Some EOF \<or> err = Some ErrUnexpectedEOF
                then Some (s\<lparr>retries := retries s @ [job], pool := (pool s)[w := Connecting]\<rparr>)
                else Some (s\<lparr>pool := (pool s)[w := Sending (JobResult (JobId job) (int w) err)]\<rparr>)
            | _ \<Rightarrow> None)
      else None)"
| "fire c (Send w) s =
     (if w < length (pool s)
      then (case pool s ! w of
              Sending result \<Rightarrow>
                if length (results s) < results_cap c
                then Some (s\<lparr>results := results s @ [result], pool := (pool s)[w := Receiving]\<rparr>)
                else None
            | _ \<Rightarrow> None)
      else None)"
| "fire c (RetryPush k) s =
     (if k < length (retries s)
      then if queue_closed s then Some (s\<lparr>status := Panicked SendOnClosedChannel\<rparr>)
           else if length (queue s) < queue_cap c
           then Some (s\<lparr>queue := queue s @ [retries s ! k],
                        retries := take k (retries s) @ drop (Suc k) (retries s)\<rparr>)
           else None
      else None)"
| "fire c Announce s =
     (if mpc s = LoopHead \<and> main_i s < jobs c
      then (case announce (jobs c) (main_i s) (announced s, logged s) of
              (announced', lg') \<Rightarrow>
                Some (s\<lparr>announced := announced', logged := lg', mpc := AwaitResult\<rparr>))
      else None)"
| "fire c Collect s =
     (if mpc s = AwaitResult
      then (case results s of
              [] \<Rightarrow> None
            | result # rs \<Rightarrow>
                Some (s\<lparr>results := rs, received := received s @ [result],
                        logged := record_result result (logged s),
                        main_i := main_i s + 1, mpc := LoopHead\<rparr>))
      else None)"
| "fire c CloseQueue s =
     (if mpc s = LoopHead \<and> \<not> main_i s < jobs c
      then if queue_closed s then Some (s\<lparr>status := Panicked CloseOfClosedChannel\<rparr>)
           else Some (s\<lparr>logged := logged s @ [LogClosing], queue_closed := True,
                        mpc := AfterClose\<rparr>)
      else None)"
| "fire c (Finish elapsed) s =
     (if mpc s = AfterClose
      then (case statistics (jobs c) elapsed (logged s) of
              Inl p \<Rightarrow> Some (s\<lparr>status := Panicked p\<rparr>)
            | Inr (ns, lg) \<Rightarrow> Some (s\<lparr>logged := lg, status := Exited\<rparr>))
      else None)"

text \<open>Once main has returned or a goroutine has panicked the process is gone.\<close>

definition step :: "config \<Rightarrow> action \<Rightarrow> state \<Rightarrow> state option" where
  "step c a s = (if status s = Running then fire c a s else None)"

fun run :: "config \<Rightarrow> action list \<Rightarrow> state \<Rightarrow> state option" where
  "run c [] s = Some s"
| "run c (a # as) s = (case step c a s of None \<Rightarrow> None | Some s' \<Rightarrow> run c as s')"

inductive reachable :: "config \<Rightarrow> state \<Rightarrow> bool" for c :: config where
  reachable_init: "reachable c (init c)"
| reachable_step: "reachable c s \<Longrightarrow> step c a s = Some s' \<Longrightarrow> reachable c s'"

text \<open>
  The jobs a worker holds, the results that have left the workers, and the jobs that are
  in flight: taken from the job queue and not yet answered by a result.
\<close>

fun held :: "worker_pc \<Rightarrow> Job multiset" where
  "held (Inserting job) = {#job#}"
| "held (Sending result) = {#Job (ResJobId result)#}"
| "held _ = {#}"

definition emitted :: "state \<Rightarrow> JobResult list" where
  "emitted s = received s @ results s"

definition in_flight :: "state \<Rightarrow> nat" where
  "in_flight s = size (\<Sum>pc\<leftarrow>pool s. held pc) + length (retries s)"

definition failed :: "state \<Rightarrow> nat" where
  "failed s = length (filter (\<lambda>r. Error r \<noteq> None) (received s))"

definition succeeded :: "state \<Rightarrow> nat" where
  "succeeded s = length (filter (\<lambda>r. Error r = None) (received s))"


section \<open>Invariants of the transition system\<close>

text \<open>
  Every job the source has produced is in exactly one place: in the job queue, with a
  waiting re-submission, in the hands of a worker, or answered by a result.
\<close>

definition tokens :: "state \<Rightarrow> Job multiset" where
  "tokens s = mset (queue s) + mset (retries s) + (\<Sum>pc\<leftarrow>pool s. held pc)
              + mset (map (\<lambda>r. Job (ResJobId r)) (emitted s))"

definition inv_main :: "config \<Rightarrow> state \<Rightarrow> bool" where
  "inv_main c s \<longleftrightarrow>
     main_i s = int (length (received s))
     \<and> (mpc s = AwaitResult \<longrightarrow> main_i s < jobs c)
     \<and> (mpc s = AfterClose \<longrightarrow> \<not> main_i s < jobs c)
     \<and> (queue_closed s \<longleftrightarrow> mpc s = AfterClose)"

definition inv_source :: "config \<Rightarrow> state \<Rightarrow> bool" where
  "inv_source c s \<longleftrightarrow>
     0 \<le> src_i s \<and> (src_i s \<le> jobs c \<or> src_i s = 0)
     \<and> tokens s = mset (map Job [0..src_i s - 1])"

definition inv_pool :: "config \<Rightarrow> state \<Rightarrow> bool" where
  "inv_pool c s \<longleftrightarrow>
     length (pool s) = nat (workers c)
     \<and> length (queue s) \<le> queue_cap c
     \<and> length (results s) \<le> results_cap c
     \<and> (\<forall>w<length (pool s). \<forall>r. pool s ! w = Sending r \<longrightarrow> WorkerId r = int w)
     \<and> (\<forall>r\<in>set (emitted s). 0 \<le> WorkerId r \<and> WorkerId r < workers c)"

definition inv_status :: "config \<Rightarrow> state \<Rightarrow> bool" where
  "inv_status c s \<longleftrightarrow>
     (case status s of
        Running \<Rightarrow> True
      | Exited \<Rightarrow> mpc s = AfterClose
      | Panicked p \<Rightarrow> p = DivideByZero \<and> jobs c = 0 \<and> mpc s = AfterClose)"

definition invariant :: "config \<Rightarrow> state \<Rightarrow> bool" where
  "invariant c s \<longleftrightarrow> inv_main c s \<and> inv_source c s \<and> inv_pool c s \<and> inv_status c s"


section \<open>A complete run\<close>

text \<open>
  Two jobs, one worker. The first \<^verbatim>\<open>Insert\<close> of job 0 meets a lost connection, so job 0
  is re-submitted and the worker reconnects; job 1 succeeds; job 0 then fails with
  another error. After two results main closes the queue and reports.
\<close>

definition demo_actions :: "action list" where
  "demo_actions =
     [SourcePush, Dial 0 None, Receive 0, Insert 0 (Some EOF), SourcePush, Dial 0 None,
      Receive 0, Insert 0 None, Send 0, RetryPush 0, Announce, Collect, Receive 0,
      Insert 0 (Some (OtherError ''x'')), Send 0, Announce, Collect, CloseQueue, Finish 1000]"

definition demo_final :: state where
  "demo_final =
     \<lparr>queue = [], queue_closed = True, results = [], src_i = 2,
      pool = [Receiving], retries = [], main_i = 2, announced = 50,
      mpc = AfterClose,
      received = [JobResult 1 0 None, JobResult 0 0 (Some (OtherError ''x''))],
      logged =
        [LogRunning 2 1, LogConnecting 0, LogConnecting 0, LogProgress 50,
         LogJobFailed 0 0 (OtherError ''x''), LogClosing, LogCompleted 1000,
         LogAverage 500],
      status = Exited\<rparr>"


text \<open>The same run after its second \<^verbatim>\<open>Collect\<close>, and after its first \<^verbatim>\<open>Receive\<close>.\<close>

definition demo_collected :: state where
  "demo_collected =
     demo_final\<lparr>logged := take 5 (logged demo_final), queue_closed := False,
                mpc := LoopHead, status := Running\<rparr>"



text \<open>The same run after its second \<^verbatim>\<open>Announce\<close>: the failed result waits to be received.\<close>

definition demo_awaiting :: state where
  "demo_awaiting =
     \<lparr>queue = [], queue_closed = False,
      results = [JobResult 0 0 (Some (OtherError ''x''))], src_i = 2,
      pool = [Receiving], retries = [], main_i = 1, announced = 50,
      mpc = AwaitResult, received = [JobResult 1 0 None],
      logged = [LogRunning 2 1, LogConnecting 0, LogConnecting 0, LogProgress 50],
      status = Running\<rparr>"


section \<open>A run that piles up re-submissions\<close>

text \<open>
  One worker. The source first fills the job queue. Then, again and again: the worker
  connects, receives the oldest job, the source puts its next job into the free place,
  and the \<^verbatim>\<open>Insert\<close> of the worker meets a lost connection, which starts a re-submission
  that finds the queue full. \<open>pileup c k\<close> is the state after \<open>k\<close> such rounds.
\<close>

definition pileup_round :: "action list" where
  "pileup_round = [Dial 0 None, Receive 0, SourcePush, Insert 0 (Some EOF)]"

definition pileup :: "config \<Rightarrow> nat \<Rightarrow> state" where
  "pileup c k =
     (init c)\<lparr>queue := map (\<lambda>j. Job (int j)) [k..<k + queue_cap c],
              src_i := int (queue_cap c + k),
              retries := map (\<lambda>j. Job (int j)) [0..<k],
              logged := logged (init c) @ replicate k (LogConnecting 0)\<rparr>"

definition pileup_actions :: "config \<Rightarrow> nat \<Rightarrow> action list" where
  "pileup_actions c k = replicate (queue_cap c) SourcePush @ concat (replicate k pileup_round)"


section \<open>Percentages that rise\<close>

text \<open>
  \<open>rising a ps\<close> keeps the elements of \<open>ps\<close> that exceed \<open>a\<close> and every element before
  them: the values \<^verbatim>\<open>announced\<close> takes when the percentages \<open>ps\<close> are computed in turn.
\<close>

fun rising :: "int \<Rightarrow> int list \<Rightarrow> int list" where
  "rising a [] = []"
| "rising a (p # ps) = (if p > a then p # rising p ps else rising a ps)"


section \<open>Results without a failure\<close>

text \<open>
  The results of \<open>N\<close> jobs that worker 0 has inserted without an error, in the order of
  the jobs: an input for the result loop.
\<close>

definition succeeded_results :: "int \<Rightarrow> JobResult list" where
  "succeeded_results N = map (\<lambda>j. JobResult j 0 None) [0..N - 1]"


section \<open>Steps that remain\<close>

text \<open>
  The steps in which the database fails: a call of \<^verbatim>\<open>mgo.Dial\<close> that returns an error,
  and an \<^verbatim>\<open>Insert\<close> that loses the connection. Every other step brings the run nearer to
  its end: \<open>remaining\<close> counts, with weights, the jobs not yet produced, re-submitted,
  queued, held and unreceived, and the steps the workers and main have before them.
\<close>

fun failing :: "action \<Rightarrow> bool" where
  "failing (Dial w err) = (err \<noteq> None)"
| "failing (Insert w err) = (err = Some EOF \<or> err = Some ErrUnexpectedEOF)"
| "failing _ = False"

fun worker_weight :: "worker_pc \<Rightarrow> nat" where
  "worker_weight Connecting = 2"
| "worker_weight Receiving = 1"
| "worker_weight (Inserting job) = 5"
| "worker_weight (Sending result) = 4"
| "worker_weight Returned = 0"

fun main_weight :: "main_pc \<Rightarrow> nat" where
  "main_weight LoopHead = 2"
| "main_weight AwaitResult = 1"
| "main_weight AfterClose = 1"

definition remaining :: "config \<Rightarrow> state \<Rightarrow> nat" where
  "remaining c s =
     6 * nat (jobs c - src_i s) + 6 * length (retries s) + 5 * length (queue s)
     + (\<Sum>pc\<leftarrow>pool s. worker_weight pc) + 2 * length (results s)
     + main_weight (mpc s) + (if status s = Running then 1 else 0)"

definition inv_returned :: "state \<Rightarrow> bool" where
  "inv_returned s \<longleftrightarrow> (\<forall>w<length (pool s). pool s ! w = Returned \<longrightarrow> queue_closed s)"


section \<open>A run with a failed job\<close>

text \<open>
  Two jobs, one worker. Job 0 fails with an error that is not a lost connection, job 1
  succeeds; main receives the failed result first. \<open>failure_awaiting\<close> is the state in
  which main waits at its first receive, both results being in the channel.
\<close>

definition failure_actions :: "action list" where
  "failure_actions =
     [SourcePush, SourcePush, Dial 0 None, Receive 0, Insert 0 (Some (OtherError ''x'')),
      Send 0, Receive 0, Insert 0 None, Send 0, Announce, Collect, Announce, Collect,
      CloseQueue, Finish 1000]"

definition failure_awaiting :: state where
  "failure_awaiting =
     \<lparr>queue = [], queue_closed = False,
      results = [JobResult 0 0 (Some (OtherError ''x'')), JobResult 1 0 None], src_i = 2,
      pool = [Receiving], retries = [], main_i = 0, announced = 0,
      mpc = AwaitResult, received = [],
      logged = [LogRunning 2 1, LogConnecting 0], status = Running\<rparr>"

definition failure_final :: state where
  "failure_final =
     \<lparr>queue = [], queue_closed = True, results = [], src_i = 2,
      pool = [Receiving], retries = [], main_i = 2, announced = 50,
      mpc = AfterClose,
      received = [JobResult 0 0 (Some (OtherError ''x'')), JobResult 1 0 None],
      logged =
        [LogRunning 2 1, LogConnecting 0, LogJobFailed 0 0 (OtherError ''x''),
         LogProgress 50, LogClosing, LogCompleted 1000, LogAverage 500],
      status = Exited\<rparr>"


section \<open>A run that retries without end\<close>

text \<open>
  One worker. The source sends job 0. Then, again and again: the worker connects,
  receives job 0, its \<^verbatim>\<open>Insert\<close> meets a lost connection, and the re-submission puts
  job 0 back into the queue. \<open>starved c n\<close> is the state after \<open>n\<close> such rounds.
\<close>

definition starve_round :: "action list" where
  "starve_round = [Dial 0 None, Receive 0, Insert 0 (Some EOF), RetryPush 0]"

definition starved :: "config \<Rightarrow> nat \<Rightarrow> state" where
  "starved c n =
     (init c)\<lparr>queue := [Job 0], src_i := 1,
              logged := logged (init c) @ replicate n (LogConnecting 0)\<rparr>"


section \<open>Proofs: the invariants hold in every reachable state\<close>

lemma held_update:
  "w < length ps \<Longrightarrow> (\<Sum>pc\<leftarrow>ps[w := x]. held pc) + held (ps ! w) = (\<Sum>pc\<leftarrow>ps. held pc) + held x"
proof (induction ps arbitrary: w)
  case Nil
  then show ?case by simp
next
  case (Cons p ps)
  show ?case
  proof (cases w)
    case 0
    then show ?thesis by simp
  next
    case (Suc v)
    with Cons.prems have "v < length ps" by simp
    from Cons.IH [OF this] Suc show ?thesis by (simp add: ac_simps)
  qed
qed

lemma held_swap:
  "w < length ps \<Longrightarrow> held (ps ! w) = held x \<Longrightarrow> (\<Sum>pc\<leftarrow>ps[w := x]. held pc) = (\<Sum>pc\<leftarrow>ps. held pc)"
  using held_update [of w ps x] by simp

lemma held_add:
  "w < length ps \<Longrightarrow> held (ps ! w) = {#} \<Longrightarrow>
     (\<Sum>pc\<leftarrow>ps[w := x]. held pc) = (\<Sum>pc\<leftarrow>ps. held pc) + held x"
  using held_update [of w ps x] by simp

lemma mset_remove_nth:
  "k < length xs \<Longrightarrow> mset (take k xs @ drop (Suc k) xs) + {#xs ! k#} = mset xs"
proof -
  assume "k < length xs"
  then have "xs = take k xs @ xs ! k # drop (Suc k) xs"
    by (rule id_take_nth_drop)
  then have "mset xs = mset (take k xs @ xs ! k # drop (Suc k) xs)" by simp
  then show ?thesis by simp
qed

lemma tokens_fire:
  assumes "fire c a s = Some s'"
  shows "tokens s' = tokens s + (if a = SourcePush \<and> \<not> queue_closed s then {#Job (src_i s)#} else {#})"
proof (cases a)
  case SourcePush
  with assms show ?thesis by (auto simp: tokens_def emitted_def split: if_splits)
next
  case (Dial w err)
  with assms held_update [of w "pool s" Receiving] show ?thesis
    by (auto simp: tokens_def emitted_def split: if_splits option.splits)
next
  case (Receive w)
  with assms held_update [of w "pool s" Returned] show ?thesis
    by (auto simp: tokens_def emitted_def held_add split: if_splits list.splits)
next
  case (Insert w err)
  with assms held_update [of w "pool s" Connecting] show ?thesis
    by (auto simp: tokens_def emitted_def held_swap split: if_splits worker_pc.splits)
next
  case (Send w)
  with assms held_update [of w "pool s" Receiving] show ?thesis
    by (auto simp: tokens_def emitted_def split: if_splits worker_pc.splits)
next
  case (RetryPush k)
  with assms mset_remove_nth [of k "retries s"] show ?thesis
    by (auto simp: tokens_def emitted_def split: if_splits)
next
  case Announce
  with assms show ?thesis by (auto simp: tokens_def emitted_def split: if_splits prod.splits)
next
  case Collect
  with assms show ?thesis by (auto simp: tokens_def emitted_def split: if_splits list.splits)
next
  case CloseQueue
  with assms show ?thesis by (auto simp: tokens_def emitted_def split: if_splits)
next
  case (Finish e)
  with assms show ?thesis by (auto simp: tokens_def emitted_def split: if_splits sum.splits prod.splits)
qed

lemma inv_main_fire:
  assumes "inv_main c s" "fire c a s = Some s'"
  shows "inv_main c s'"
proof (cases a)
  case SourcePush
  with assms show ?thesis by (auto simp: inv_main_def split: if_splits)
next
  case (Dial w err)
  with assms show ?thesis by (auto simp: inv_main_def split: if_splits option.splits)
next
  case (Receive w)
  with assms show ?thesis by (auto simp: inv_main_def split: if_splits list.splits)
next
  case (Insert w err)
  with assms show ?thesis by (auto simp: inv_main_def split: if_splits worker_pc.splits)
next
  case (Send w)
  with assms show ?thesis by (auto simp: inv_main_def split: if_splits worker_pc.splits)
next
  case (RetryPush k)
  with assms show ?thesis by (auto simp: inv_main_def split: if_splits)
next
  case Announce
  with assms show ?thesis by (auto simp: inv_main_def split: if_splits prod.splits)
next
  case Collect
  with assms show ?thesis by (auto simp: inv_main_def split: if_splits list.splits)
next
  case CloseQueue
  with assms show ?thesis by (auto simp: inv_main_def split: if_splits)
next
  case (Finish e)
  with assms show ?thesis by (auto simp: inv_main_def split: if_splits sum.splits prod.splits)
qed

lemma size_held_le: "size (\<Sum>pc\<leftarrow>ps. held pc) \<le> length ps"
proof (induction ps)
  case Nil
  then show ?case by simp
next
  case (Cons p ps)
  have "size (held p) \<le> 1" by (cases p) simp_all
  with Cons show ?case by simp
qed

lemma size_tokens:
  "size (tokens s) = length (queue s) + length (retries s) + size (\<Sum>pc\<leftarrow>pool s. held pc)
                      + length (emitted s)"
  by (simp add: tokens_def)

lemma size_tokens_source: "inv_source c s \<Longrightarrow> size (tokens s) = nat (src_i s)"
  by (simp add: inv_source_def)

lemma src_i_fire:
  assumes "fire c a s = Some s'"
  shows "src_i s' = (if a = SourcePush \<and> \<not> queue_closed s then src_i s + 1 else src_i s)"
proof (cases a)
  case (Insert w err)
  with assms show ?thesis by (auto split: if_splits worker_pc.splits)
next
  case (Send w)
  with assms show ?thesis by (auto split: if_splits worker_pc.splits)
qed (use assms in \<open>auto split: if_splits option.splits list.splits prod.splits sum.splits\<close>)

lemma inv_source_fire:
  assumes "inv_source c s" "fire c a s = Some s'"
  shows "inv_source c s'"
proof (cases "a = SourcePush \<and> \<not> queue_closed s")
  case True
  with assms(2) have lt: "src_i s < jobs c"
    by (auto split: if_splits)
  from assms(1) have nn: "0 \<le> src_i s" by (simp add: inv_source_def)
  then have "[0..src_i s + 1 - 1] = [0..src_i s - 1] @ [src_i s]"
    using upto_rec2 [of 0 "src_i s"] by simp
  with assms True lt nn show ?thesis
    by (simp add: inv_source_def tokens_fire [OF assms(2)] src_i_fire [OF assms(2)])
next
  case False
  with assms show ?thesis
    by (auto simp: inv_source_def tokens_fire [OF assms(2)] src_i_fire [OF assms(2)])
qed

lemma inv_pool_fire:
  assumes "inv_pool c s" "fire c a s = Some s'"
  shows "inv_pool c s'"
proof (cases a)
  case SourcePush
  with assms show ?thesis by (auto simp: inv_pool_def emitted_def split: if_splits)
next
  case (Dial w err)
  with assms show ?thesis
    by (auto simp: inv_pool_def emitted_def nth_list_update split: if_splits option.splits)
next
  case (Receive w)
  with assms show ?thesis
    by (auto simp: inv_pool_def emitted_def nth_list_update split: if_splits list.splits)
next
  case (Insert w err)
  with assms show ?thesis
    by (auto simp: inv_pool_def emitted_def nth_list_update split: if_splits worker_pc.splits)
next
  case (Send w)
  with assms show ?thesis
    by (auto simp: inv_pool_def emitted_def nth_list_update split: if_splits worker_pc.splits)
next
  case (RetryPush k)
  with assms show ?thesis by (auto simp: inv_pool_def emitted_def split: if_splits)
next
  case Announce
  with assms show ?thesis by (auto simp: inv_pool_def emitted_def split: if_splits prod.splits)
next
  case Collect
  with assms show ?thesis by (auto simp: inv_pool_def emitted_def split: if_splits list.splits)
next
  case CloseQueue
  with assms show ?thesis by (auto simp: inv_pool_def emitted_def split: if_splits)
next
  case (Finish e)
  with assms show ?thesis
    by (auto simp: inv_pool_def emitted_def split: if_splits sum.splits prod.splits)
qed

text \<open>Once the queue is closed every job has its result: nothing is left to send.\<close>

lemma closed_all_emitted:
  assumes "inv_main c s" "inv_source c s" "queue_closed s"
  shows "\<not> src_i s < jobs c \<and> retries s = [] \<and> queue s = []
         \<and> (\<Sum>pc\<leftarrow>pool s. held pc) = {#} \<and> results s = []"
proof -
  from assms(1,3) have ge: "jobs c \<le> int (length (received s))"
    by (auto simp: inv_main_def)
  have sz: "nat (src_i s) = length (queue s) + length (retries s)
        + size (\<Sum>pc\<leftarrow>pool s. held pc) + length (received s) + length (results s)"
    using size_tokens [of s] size_tokens_source [OF assms(2)] by (simp add: emitted_def)
  from assms(2) have b: "0 \<le> src_i s" "src_i s \<le> jobs c \<or> src_i s = 0"
    by (simp_all add: inv_source_def)
  from ge b have le: "nat (src_i s) \<le> length (received s)"
    by linarith
  with sz have z: "length (queue s) = 0" "length (retries s) = 0"
      "size (\<Sum>pc\<leftarrow>pool s. held pc) = 0" "length (results s) = 0"
    and eq: "nat (src_i s) = length (received s)"
    by linarith+
  from eq ge b have "\<not> src_i s < jobs c" by linarith
  with z show ?thesis by simp
qed

lemma inv_status_step:
  assumes "inv_main c s" "inv_source c s" "inv_status c s" "step c a s = Some s'"
  shows "inv_status c s'"
proof -
  from assms(4) have run: "status s = Running" and f: "fire c a s = Some s'"
    by (simp_all add: step_def split: if_splits)
  show ?thesis
  proof (cases a)
    case SourcePush
    with f run closed_all_emitted [OF assms(1,2)] show ?thesis
      by (auto simp: inv_status_def split: if_splits)
  next
    case (Dial w err)
    with f run show ?thesis by (auto simp: inv_status_def split: if_splits option.splits)
  next
    case (Receive w)
    with f run show ?thesis by (auto simp: inv_status_def split: if_splits list.splits)
  next
    case (Insert w err)
    with f run show ?thesis by (auto simp: inv_status_def split: if_splits worker_pc.splits)
  next
    case (Send w)
    with f run show ?thesis by (auto simp: inv_status_def split: if_splits worker_pc.splits)
  next
    case (RetryPush k)
    with f run closed_all_emitted [OF assms(1,2)] show ?thesis
      by (auto simp: inv_status_def split: if_splits)
  next
    case Announce
    with f run show ?thesis by (auto simp: inv_status_def split: if_splits prod.splits)
  next
    case Collect
    with f run show ?thesis by (auto simp: inv_status_def split: if_splits list.splits)
  next
    case CloseQueue
    with f run assms(1) show ?thesis
      by (auto simp: inv_status_def inv_main_def split: if_splits)
  next
    case (Finish e)
    with f run show ?thesis
      by (auto simp: inv_status_def statistics_def int64_div_def
               split: if_splits sum.splits prod.splits)
  qed
qed

lemma held_replicate: "sum_list (replicate n ({#} :: Job multiset)) = {#}"
  by (induction n) simp_all

lemma invariant_init: "invariant c (init c)"
  by (simp add: held_replicate invariant_def inv_main_def inv_source_def inv_pool_def inv_status_def
        init_def tokens_def emitted_def)

lemma invariant_step:
  assumes "invariant c s" "step c a s = Some s'"
  shows "invariant c s'"
proof -
  from assms(2) have f: "fire c a s = Some s'"
    by (simp add: step_def split: if_splits)
  from assms(1) have i: "inv_main c s" "inv_source c s" "inv_pool c s" "inv_status c s"
    by (simp_all add: invariant_def)
  show ?thesis
    unfolding invariant_def
    using inv_main_fire [OF i(1) f] inv_source_fire [OF i(2) f] inv_pool_fire [OF i(3) f]
      inv_status_step [OF i(1,2,4) assms(2)]
    by simp
qed

lemma reachable_invariant: "reachable c s \<Longrightarrow> invariant c s"
  by (induction rule: reachable.induct) (auto intro: invariant_init invariant_step)

lemma run_reachable: "reachable c s \<Longrightarrow> run c as s = Some s' \<Longrightarrow> reachable c s'"
proof (induction as arbitrary: s)
  case Nil
  then show ?case by simp
next
  case (Cons a as)
  then show ?case
    by (auto split: option.splits intro: reachable_step)
qed


section \<open>Evaluating the model\<close>

lemmas float_eval = percentage_def float64_def ilog2_def round_half_even_def Let_def compute_bitlen

lemma percentage_2: "percentage 2 0 = 0" "percentage 2 1 = 50"
  by (simp_all add: float_eval)

lemma demo_run: "run (main_config 2 1) demo_actions (init (main_config 2 1)) = Some demo_final"
  by (simp add: demo_actions_def demo_final_def main_config_def init_def step_def
        announce_def record_result_def statistics_def int64_div_def percentage_2
        signed_divide_int_def signed_take_bit_int_eq_self)


lemma reachable_run: "run c as (init c) = Some s \<Longrightarrow> reachable c s"
  using run_reachable [OF reachable_init] .

lemma demo_reachable: "reachable (main_config 2 1) demo_final"
  by (rule reachable_run [OF demo_run])


section \<open>The job source\<close>

lemma source_loop_eq: "source_loop N i sent = sent @ map Job [i..N - 1]"
proof (induction N i sent rule: source_loop.induct)
  case (1 N i sent)
  show ?case
  proof (cases "i < N")
    case True
    then have "[i..N - 1] = i # [i + 1..N - 1]"
      by (simp add: upto_rec1)
    with True 1 show ?thesis
      by (simp add: source_loop.simps [of N i])
  next
    case False
    then show ?thesis
      by (simp add: source_loop.simps [of N i])
  qed
qed

text \<open>
  C6. The job source sends exactly the jobs with ids \<open>0\<close> to \<^verbatim>\<open>*jobs\<close>\<open> - 1\<close>, each id
  once, in increasing order (for \<^verbatim>\<open>*jobs\<close> \<open>\<le> 0\<close> it sends nothing). In the running
  program each of its steps appends the job numbered by its counter to the job queue,
  increments the counter and changes nothing else; the jobs present in the program are
  at every moment those the source has sent so far, a prefix of that sequence.
\<close>

theorem job_source_output:
  "source_loop N 0 [] = map Job [0..N - 1]
   \<and> map JobId (source_loop N 0 []) = [0..N - 1]
   \<and> distinct (map JobId (source_loop N 0 []))
   \<and> sorted_wrt (<) (map JobId (source_loop N 0 []))
   \<and> set (map JobId (source_loop N 0 [])) = {0..<N}
   \<and> (step c SourcePush s = Some s' \<and> \<not> queue_closed s \<longrightarrow>
        src_i s < jobs c
        \<and> s' = s\<lparr>queue := queue s @ [Job (src_i s)], src_i := src_i s + 1\<rparr>)
   \<and> (reachable c s \<longrightarrow>
        0 \<le> src_i s \<and> src_i s \<le> max 0 (jobs c)
        \<and> tokens s = mset (take (nat (src_i s)) (source_loop (jobs c) 0 [])))"
proof -
  have m: "map JobId (map Job xs) = xs" for xs
    by (induction xs) simp_all
  have s: "sorted_wrt (<) [0..N - 1]"
    by (simp add: sorted_wrt_upto)
  have e: "set [0..N - 1] = {0..<N}"
    by auto
  have p: "src_i s < jobs c
        \<and> s' = s\<lparr>queue := queue s @ [Job (src_i s)], src_i := src_i s + 1\<rparr>"
    if "step c SourcePush s = Some s'" "\<not> queue_closed s"
    using that by (auto simp: step_def split: if_splits)
  have r: "0 \<le> src_i s \<and> src_i s \<le> max 0 (jobs c)
        \<and> tokens s = mset (take (nat (src_i s)) (source_loop (jobs c) 0 []))"
    if "reachable c s"
  proof -
    from reachable_invariant [OF that] have src: "inv_source c s"
      by (simp add: invariant_def)
    then have b: "0 \<le> src_i s" "src_i s \<le> max 0 (jobs c)"
      and t: "tokens s = mset (map Job [0..src_i s - 1])"
      by (auto simp: inv_source_def)
    have "take (nat (src_i s)) [0..jobs c - 1] = [0..src_i s - 1]"
    proof (cases "src_i s = 0")
      case True
      then show ?thesis by simp
    next
      case False
      with b src have le: "src_i s \<le> jobs c" and pos: "0 < src_i s"
        by (auto simp: inv_source_def)
      have "[0..jobs c - 1] = [0..src_i s - 1] @ [src_i s..jobs c - 1]"
      proof (cases "src_i s = jobs c")
        case True
        then show ?thesis by simp
      next
        case False
        with le have "src_i s \<le> jobs c - 1" by simp
        with pos show ?thesis
          by (intro upto_split1) simp_all
      qed
      moreover have "length [0..src_i s - 1] = nat (src_i s)"
        using pos by simp
      ultimately show ?thesis by simp
    qed
    then have "take (nat (src_i s)) (source_loop (jobs c) 0 []) = map Job [0..src_i s - 1]"
      by (simp add: source_loop_eq take_map)
    with b t show ?thesis by simp
  qed
  have c1: "source_loop N 0 [] = map Job [0..N - 1]"
    by (simp add: source_loop_eq)
  have c2: "map JobId (source_loop N 0 []) = [0..N - 1]"
    by (simp only: c1 m)
  have c3: "distinct (map JobId (source_loop N 0 []))"
    by (simp only: c2 distinct_upto)
  have c4: "sorted_wrt (<) (map JobId (source_loop N 0 []))"
    by (simp only: c2 s)
  have c5: "set (map JobId (source_loop N 0 [])) = {0..<N}"
    by (simp only: c2 e)
  have c6: "step c SourcePush s = Some s' \<and> \<not> queue_closed s \<longrightarrow>
        src_i s < jobs c
        \<and> s' = s\<lparr>queue := queue s @ [Job (src_i s)], src_i := src_i s + 1\<rparr>"
    using p by blast
  have c7: "reachable c s \<longrightarrow>
        0 \<le> src_i s \<and> src_i s \<le> max 0 (jobs c)
        \<and> tokens s = mset (take (nat (src_i s)) (source_loop (jobs c) 0 []))"
    using r by blast
  show ?thesis
    by (rule conjI [OF c1 conjI [OF c2 conjI [OF c3 conjI [OF c4 conjI [OF c5 conjI [OF c6 c7]]]]]])
qed

theorem job_source_output_witness:
  "step (main_config 2 1) SourcePush (init (main_config 2 1)) =
     Some ((init (main_config 2 1))\<lparr>queue := [Job 0], src_i := 1\<rparr>)
   \<and> reachable (main_config 2 1) demo_final
   \<and> src_i demo_final = 2
   \<and> tokens demo_final = mset (take 2 (source_loop 2 0 []))
   \<and> source_loop 2 0 [] = [Job 0, Job 1]"
proof -
  have st: "step (main_config 2 1) SourcePush (init (main_config 2 1)) =
     Some ((init (main_config 2 1))\<lparr>queue := [Job 0], src_i := 1\<rparr>)"
    by (simp add: step_def init_def main_config_def)
  have nc: "\<not> queue_closed (init (main_config 2 1))"
    by (simp add: init_def)
  have sl: "source_loop 2 0 [] = [Job 0, Job 1]"
    by (simp add: source_loop.simps)
  note t = job_source_output [where N = 2 and c = "main_config 2 1" and s = demo_final]
  from t have "reachable (main_config 2 1) demo_final \<longrightarrow>
        0 \<le> src_i demo_final \<and> src_i demo_final \<le> max 0 (jobs (main_config 2 1))
        \<and> tokens demo_final
            = mset (take (nat (src_i demo_final)) (source_loop (jobs (main_config 2 1)) 0 []))"
    by (rule conjunct2 [THEN conjunct2, THEN conjunct2, THEN conjunct2, THEN conjunct2,
          THEN conjunct2])
  with demo_reachable have "tokens demo_final
      = mset (take (nat (src_i demo_final)) (source_loop (jobs (main_config 2 1)) 0 []))"
    by blast
  moreover have "src_i demo_final = 2" "jobs (main_config 2 1) = 2"
    by (simp_all add: demo_final_def main_config_def)
  ultimately have "tokens demo_final = mset (take 2 (source_loop 2 0 []))"
    by simp
  with st demo_reachable sl \<open>src_i demo_final = 2\<close> show ?thesis
    by (intro conjI)
qed


section \<open>The coordinator\<close>

lemma int64_div_in_range:
  assumes "0 \<le> a" "a < 2 ^ 63" "0 < b"
  shows "int64_div a b = Inr (a div b)"
proof -
  have "a sdiv b = a div b"
    using assms by (simp add: signed_divide_int_def sgn_if)
  moreover have "0 \<le> a div b" using assms by (simp add: pos_imp_zdiv_nonneg_iff)
  moreover have "a div b \<le> a" using assms
    by (metis div_by_1 int_one_le_iff_zero_less zdiv_mono2 order_refl)
  ultimately have "signed_take_bit 63 (a sdiv b) = a div b"
    using assms by (simp add: signed_take_bit_int_eq_self)
  with assms show ?thesis by (simp add: int64_div_def)
qed

text \<open>
  C9. Once exactly \<^verbatim>\<open>*jobs\<close> results have been received (and not before), main closes the
  job queue, reads the clock and reports the average per job: the elapsed nanoseconds
  divided, as integers, by the number of jobs. Stated for a positive number of jobs and
  an elapsed time that a Go \<^verbatim>\<open>Duration\<close> can hold.
\<close>

theorem close_and_average:
  assumes "reachable c s" "status s = Running" "mpc s = LoopHead"
    and "0 < jobs c" "0 \<le> elapsed" "elapsed < 2 ^ 63"
  shows "(main_i s < jobs c \<longrightarrow> step c CloseQueue s = None)
     \<and> (main_i s = jobs c \<longrightarrow>
          int (length (received s)) = jobs c
          \<and> run c [CloseQueue, Finish elapsed] s =
              Some (s\<lparr>logged := logged s @
                         [LogClosing, LogCompleted elapsed, LogAverage (elapsed div jobs c)],
                       queue_closed := True, mpc := AfterClose, status := Exited\<rparr>))"
proof -
  from reachable_invariant [OF assms(1)] have m: "inv_main c s"
    by (simp add: invariant_def)
  from m assms(3) have nc: "\<not> queue_closed s"
    by (simp add: inv_main_def)
  from m have len: "main_i s = int (length (received s))"
    by (simp add: inv_main_def)
  have st: "statistics (jobs c) elapsed lg =
      Inr (elapsed div jobs c, lg @ [LogCompleted elapsed, LogAverage (elapsed div jobs c)])" for lg
    using int64_div_in_range [OF assms(5,6,4)] by (simp add: statistics_def)
  show ?thesis
    using assms(2,3) nc len by (simp add: step_def st)
qed

lemma demo_collected_run:
  "run (main_config 2 1) (take 17 demo_actions) (init (main_config 2 1)) = Some demo_collected"
  by (simp add: demo_actions_def demo_final_def demo_collected_def main_config_def init_def
        step_def announce_def record_result_def percentage_2)

theorem close_and_average_witness:
  "reachable (main_config 2 1) demo_collected \<and> status demo_collected = Running
   \<and> mpc demo_collected = LoopHead \<and> main_i demo_collected = jobs (main_config 2 1)
   \<and> run (main_config 2 1) [CloseQueue, Finish 1000] demo_collected = Some demo_final"
proof -
  have r: "reachable (main_config 2 1) demo_collected"
    by (rule reachable_run [OF demo_collected_run])
  have h: "status demo_collected = Running" "mpc demo_collected = LoopHead"
    "0 < jobs (main_config 2 1)" "(0::int) \<le> 1000" "(1000::int) < 2 ^ 63"
    by (simp_all add: demo_collected_def main_config_def)
  have e: "main_i demo_collected = jobs (main_config 2 1)"
    by (simp add: demo_collected_def demo_final_def main_config_def)
  from close_and_average [OF r h] e r h
  show ?thesis
    by (simp add: demo_collected_def demo_final_def main_config_def)
qed

text \<open>
  C10. With \<^verbatim>\<open>*jobs\<close> \<open>= 0\<close> the result loop is empty (the loop returns at once, no
  announcement and no receive is possible), main closes the queue, and the division of
  the elapsed time by the number of jobs panics: no statistics are reported.
\<close>

theorem zero_jobs_panics:
  assumes "jobs c = 0"
  shows "step c Announce (init c) = None \<and> step c Collect (init c) = None
     \<and> result_loop (jobs c) 0 0 lg rs = Some (0, 0, lg, rs)
     \<and> statistics (jobs c) elapsed lg = Inl DivideByZero
     \<and> run c [CloseQueue, Finish elapsed] (init c) =
          Some ((init c)\<lparr>logged := logged (init c) @ [LogClosing], queue_closed := True,
                         mpc := AfterClose, status := Panicked DivideByZero\<rparr>)"
  using assms
  by (simp add: step_def init_def statistics_def int64_div_def result_loop.simps [of 0 0])

theorem zero_jobs_panics_witness:
  "jobs (main_config 0 4) = 0
   \<and> run (main_config 0 4) [CloseQueue, Finish 1000] (init (main_config 0 4)) =
       Some \<lparr>queue = [], queue_closed = True, results = [], src_i = 0,
             pool = [Connecting, Connecting, Connecting, Connecting], retries = [],
             main_i = 0, announced = 0, mpc = AfterClose, received = [],
             logged = [LogRunning 0 4, LogClosing], status = Panicked DivideByZero\<rparr>"
proof -
  have j: "jobs (main_config 0 4) = 0" by (simp add: main_config_def)
  have n: "replicate 4 Connecting = [Connecting, Connecting, Connecting, Connecting]"
    by (simp add: numeral_eq_Suc)
  from zero_jobs_panics [OF j, of "[]" "[]" 1000] j show ?thesis
    by (simp add: init_def main_config_def n)
qed


section \<open>The worker\<close>







section \<open>Failures in the log\<close>

lemma failure_lines_append:
  "failure_lines (xs @ ys) = failure_lines xs @ failure_lines ys"
  by (induction xs rule: failure_lines.induct) simp_all

lemma failures_append: "failures (xs @ ys) = failures xs @ failures ys"
  by (induction xs) (simp_all split: option.splits)

lemma progress_lines_append:
  "progress_lines (xs @ ys) = progress_lines xs @ progress_lines ys"
  by (induction xs rule: progress_lines.induct) simp_all

lemma failure_lines_announce:
  "announce N i (a, lg) = (a', lg') \<Longrightarrow> failure_lines lg' = failure_lines lg"
  by (auto simp: announce_def Let_def failure_lines_append split: if_splits)

lemma failure_lines_record:
  "failure_lines (record_result r lg) = failure_lines lg @ failures [r]"
  by (simp add: record_result_def failure_lines_append split: option.splits)

lemma failure_lines_fire:
  assumes "fire c a s = Some s'" "failure_lines (logged s) = failures (received s)"
  shows "failure_lines (logged s') = failures (received s')"
proof (cases a)
  case SourcePush
  with assms show ?thesis by (auto split: if_splits)
next
  case (Dial w err)
  with assms show ?thesis by (auto simp: failure_lines_append split: if_splits option.splits)
next
  case (Receive w)
  with assms show ?thesis by (auto split: if_splits list.splits)
next
  case (Insert w err)
  with assms show ?thesis by (auto split: if_splits worker_pc.splits)
next
  case (Send w)
  with assms show ?thesis by (auto split: if_splits worker_pc.splits)
next
  case (RetryPush k)
  with assms show ?thesis by (auto split: if_splits)
next
  case Announce
  with assms show ?thesis
    by (auto split: if_splits prod.splits dest: failure_lines_announce)
next
  case Collect
  with assms show ?thesis
    by (auto simp: failure_lines_record failures_append split: if_splits list.splits)
next
  case CloseQueue
  with assms show ?thesis by (auto simp: failure_lines_append split: if_splits)
next
  case (Finish e)
  with assms show ?thesis
    by (auto simp: statistics_def failure_lines_append split: if_splits sum.splits prod.splits)
qed

lemma reachable_failure_lines:
  "reachable c s \<Longrightarrow> failure_lines (logged s) = failures (received s)"
proof (induction rule: reachable.induct)
  case reachable_init
  show ?case by (simp add: init_def)
next
  case (reachable_step s a s')
  then show ?case
    by (auto simp: step_def split: if_splits intro: failure_lines_fire)
qed

lemma length_failures: "length (failures rs) = length (filter (\<lambda>r. Error r \<noteq> None) rs)"
  by (induction rs) (simp_all split: option.splits)

lemma failures_Cons: "failures (r # rs) = failures [r] @ failures rs"
  by (simp split: option.splits)

lemma result_loop_consumes:
  assumes "nat (N - i) \<le> length rs"
  shows "\<exists>a' lg'. result_loop N i a lg rs = Some (max i N, a', lg', drop (nat (N - i)) rs)
     \<and> failure_lines lg' = failure_lines lg @ failures (take (nat (N - i)) rs)"
  using assms
proof (induction N i a lg rs rule: result_loop.induct)
  case (1 N i a lg rs)
  show ?case
  proof (cases "i < N")
    case False
    then show ?thesis
      by (simp add: result_loop.simps [of N i] max_def)
  next
    case True
    obtain a1 lg1 where an: "announce N i (a, lg) = (a1, lg1)"
      by (cases "announce N i (a, lg)")
    from True have n: "nat (N - i) = Suc (nat (N - (i + 1)))"
      by simp
    with "1.prems" obtain r rs' where rs: "rs = r # rs'"
      by (cases rs) simp_all
    with "1.prems" n have le: "nat (N - (i + 1)) \<le> length rs'"
      by simp
    from "1.IH" [OF True an [symmetric] rs le]
    obtain a' lg' where
      rec: "result_loop N (i + 1) a1 (record_result r lg1) rs'
          = Some (max (i + 1) N, a', lg', drop (nat (N - (i + 1))) rs')"
      and fl: "failure_lines lg' = failure_lines (record_result r lg1)
          @ failures (take (nat (N - (i + 1))) rs')"
      by blast
    have l1: "failure_lines lg1 = failure_lines lg"
      by (rule failure_lines_announce [OF an])
    have m: "max (i + 1) N = max i N"
      using True by simp
    have "result_loop N i a lg rs = Some (max i N, a', lg', drop (nat (N - i)) rs)"
      using True an rec by (simp add: result_loop.simps [of N i] rs n m)
    moreover have "failure_lines lg' = failure_lines lg @ failures (take (nat (N - i)) rs)"
      unfolding fl failure_lines_record l1 rs n
      using failures_Cons [of r "take (nat (N - (i + 1))) rs'"] by simp
    ultimately show ?thesis by blast
  qed
qed

lemma demo_awaiting_run:
  "run (main_config 2 1) (take 16 demo_actions) (init (main_config 2 1)) = Some demo_awaiting"
  by (simp add: demo_actions_def demo_awaiting_def main_config_def init_def
        step_def announce_def record_result_def percentage_2)

lemma failure_awaiting_run:
  "run (main_config 2 1) (take 10 failure_actions) (init (main_config 2 1))
     = Some failure_awaiting"
  by (simp add: failure_actions_def failure_awaiting_def main_config_def init_def
        step_def announce_def record_result_def percentage_2)

lemma failure_final_run:
  "run (main_config 2 1) (drop 10 failure_actions) failure_awaiting = Some failure_final"
  by (simp add: failure_actions_def failure_awaiting_def failure_final_def main_config_def
        step_def announce_def record_result_def percentage_2 statistics_def int64_div_def
        signed_divide_int_def signed_take_bit_int_eq_self signed_modulo_int_def)


section \<open>One result per job\<close>

lemma image_mset_JobId_Job: "image_mset JobId (image_mset Job M) = M"
  by (simp add: multiset.map_comp comp_def)

lemma distinct_mset_subseteq:
  assumes "mset xs \<subseteq># mset ys" "distinct ys"
  shows "distinct xs"
proof -
  have "count (mset xs) a \<le> 1" for a
  proof -
    have "count (mset xs) a \<le> count (mset ys) a"
      using assms(1) by (rule mset_subset_eq_count)
    also have "\<dots> \<le> 1"
      using assms(2) by (simp add: distinct_count_atmost_1)
    finally show ?thesis .
  qed
  then have "count (mset xs) a = (if a \<in> set xs then 1 else 0)" for a
    using count_mset_0_iff [of xs a] le_Suc_eq [of "count (mset xs) a" 0]
    by (cases "a \<in> set xs") auto
  then show ?thesis
    by (simp add: distinct_count_atmost_1)
qed

lemma job_ids:
  assumes "inv_source c s"
  shows "mset (map JobId (queue s)) + mset (map JobId (retries s))
       + image_mset JobId (\<Sum>pc\<leftarrow>pool s. held pc) + mset (map ResJobId (emitted s))
       = mset [0..src_i s - 1]"
proof -
  from assms have "image_mset JobId (tokens s) = image_mset JobId (image_mset Job (mset [0..src_i s - 1]))"
    by (simp add: inv_source_def)
  then show ?thesis
    by (simp add: tokens_def image_mset_JobId_Job multiset.map_comp comp_def)
qed


section \<open>Connecting\<close>

lemma attempts_Suc:
  "attempts w dial (Suc n) =
     attempts w dial n @ [LogConnecting w, LogUnableToConnect w (the (dial n))]"
  by (simp add: attempts_def)

lemma connect_returns:
  assumes "dial (n + k) = None" "\<forall>j<k. dial (n + j) \<noteq> None"
  shows "connect w dial n lg =
     Some (n + k, lg @ concat (map (\<lambda>j. [LogConnecting w, LogUnableToConnect w (the (dial j))])
                               [n..<n + k]) @ [LogConnecting w])"
  using assms
proof (induction k arbitrary: n lg)
  case 0
  then show ?case
    by (subst connect.simps) simp
next
  case (Suc k)
  let ?f = "\<lambda>j. [LogConnecting w, LogUnableToConnect w (the (dial j))]"
  from Suc.prems(2) obtain e where e: "dial n = Some e"
    by (metis add.right_neutral not_None_eq zero_less_Suc)
  have a: "dial (Suc n + k) = None"
    using Suc.prems(1) by simp
  have b: "\<forall>j<k. dial (Suc n + j) \<noteq> None"
    using Suc.prems(2) by (metis Suc_less_eq add_Suc_shift)
  have "[n..<n + Suc k] = n # [Suc n..<Suc n + k]"
    by (simp add: upt_conv_Cons del: upt_Suc)
  then have cc: "concat (map ?f [n..<n + Suc k]) =
      [LogConnecting w, LogUnableToConnect w e] @ concat (map ?f [Suc n..<Suc n + k])"
    by (simp only: list.map concat.simps e option.sel)
  have "connect w dial n lg =
      connect w dial (Suc n) (lg @ [LogConnecting w, LogUnableToConnect w e])"
    by (subst connect.simps) (simp add: e)
  also have "\<dots> = Some (Suc n + k, (lg @ [LogConnecting w, LogUnableToConnect w e])
      @ concat (map ?f [Suc n..<Suc n + k]) @ [LogConnecting w])"
    by (rule Suc.IH [OF a b])
  also have "\<dots> = Some (n + Suc k, lg @ concat (map ?f [n..<n + Suc k]) @ [LogConnecting w])"
    unfolding cc by (simp only: append_assoc add_Suc add_Suc_right)
  finally show ?case .
qed

lemma connect_Some_dial:
  assumes "connect w dial n lg = Some r"
  shows "\<exists>m\<ge>n. dial m = None"
proof -
  have step: "\<exists>m\<ge>n. dial m = None"
    if ih: "\<And>w dial n lg y. f w dial n lg = Some y \<Longrightarrow> \<exists>m\<ge>n. dial m = None"
      and eq: "(case dial n of
                  None \<Rightarrow> Some (n, lg @ [LogConnecting w])
                | Some e \<Rightarrow> f w dial (n + 1) (lg @ [LogConnecting w, LogUnableToConnect w e]))
               = Some r"
    for f :: "int \<Rightarrow> (nat \<Rightarrow> error option) \<Rightarrow> nat \<Rightarrow> log_line list \<Rightarrow> (nat \<times> log_line list) option"
      and w dial n lg r
  proof (cases "dial n")
    case None
    then show ?thesis by auto
  next
    case (Some e)
    with eq have "f w dial (n + 1) (lg @ [LogConnecting w, LogUnableToConnect w e]) = Some r"
      by simp
    from ih [OF this] obtain m where "m \<ge> n + 1" "dial m = None"
      by blast
    then show ?thesis
      by (metis add_leD1)
  qed
  show ?thesis
    by (rule connect.raw_induct [where P = "\<lambda>w dial n lg r. \<exists>m\<ge>n. dial m = None", OF step assms])
qed

text \<open>
  C8. \<^verbatim>\<open>connect\<close> returns exactly when some call of \<^verbatim>\<open>mgo.Dial\<close> succeeds: it then returns
  the handle of the first successful call, having logged every attempt before it and
  the successful one. Its result is a handle, never an error. When every call fails it
  does not return.
\<close>

theorem connect_returns_iff_dial_succeeds:
  "(case connect w dial 0 [] of
      None \<Rightarrow> \<forall>n. dial n \<noteq> None
    | Some (h, lg) \<Rightarrow>
        dial h = None \<and> (\<forall>n<h. dial n \<noteq> None)
        \<and> lg = attempts w dial h @ [LogConnecting w])
   \<and> ((\<exists>n. dial n = None) \<longleftrightarrow> connect w dial 0 [] \<noteq> None)
   \<and> ((\<forall>n. dial n \<noteq> None) \<longrightarrow> connect w dial 0 [] = None)"
proof (cases "\<exists>n. dial n = None")
  case True
  define h where "h = (LEAST n. dial n = None)"
  from True have h: "dial h = None"
    unfolding h_def by (rule LeastI_ex)
  have less: "\<forall>n<h. dial n \<noteq> None"
    unfolding h_def using not_less_Least by blast
  from connect_returns [of dial 0 h w "[]"] h less
  have "connect w dial 0 [] = Some (h, attempts w dial h @ [LogConnecting w])"
    by (simp add: attempts_def)
  with h less True show ?thesis by auto
next
  case False
  have "connect w dial 0 [] = None"
  proof (rule ccontr)
    assume "connect w dial 0 [] \<noteq> None"
    then obtain r where "connect w dial 0 [] = Some r" by blast
    from connect_Some_dial [OF this] False show False by blast
  qed
  with False show ?thesis by simp
qed

theorem connect_returns_iff_dial_succeeds_witness:
  "connect 3 (\<lambda>n. if n < 2 then Some (OtherError ''no reachable servers'') else None) 0 [] =
     Some (2, [LogConnecting 3, LogUnableToConnect 3 (OtherError ''no reachable servers''),
               LogConnecting 3, LogUnableToConnect 3 (OtherError ''no reachable servers''),
               LogConnecting 3])
   \<and> connect 3 (\<lambda>n. Some EOF) 0 [] = None"
proof -
  let ?d = "\<lambda>n::nat. if n < 2 then Some (OtherError ''no reachable servers'') else None"
  have n2: "[0..<2] = [0, Suc 0]"
    by (simp add: upt_rec)
  have "connect 3 ?d 0 [] \<noteq> None"
    using connect_returns_iff_dial_succeeds [where w = 3 and dial = ?d] by (auto split: if_splits)
  then obtain h lg where r: "connect 3 ?d 0 [] = Some (h, lg)"
    by auto
  with connect_returns_iff_dial_succeeds [where w = 3 and dial = ?d]
  have p: "?d h = None" "\<forall>n<h. ?d n \<noteq> None" "lg = attempts 3 ?d h @ [LogConnecting 3]"
    by simp_all
  from p(1) have "2 \<le> h" by (simp split: if_splits)
  moreover from p(2) have "h \<le> 2"
    by (metis linorder_not_less option.discI order_refl)
  ultimately have h: "h = 2" by simp
  have a: "connect 3 ?d 0 [] =
     Some (2, [LogConnecting 3, LogUnableToConnect 3 (OtherError ''no reachable servers''),
               LogConnecting 3, LogUnableToConnect 3 (OtherError ''no reachable servers''),
               LogConnecting 3])"
    using r p(3) by (simp add: h attempts_def n2)
  have b: "connect 3 (\<lambda>n. Some EOF) 0 [] = None"
    using connect_returns_iff_dial_succeeds [where w = 3 and dial = "\<lambda>n. Some EOF"] by simp
  from a b show ?thesis by simp
qed


section \<open>Jobs in flight\<close>

lemma run_append:
  "run c (as @ bs) s = (case run c as s of None \<Rightarrow> None | Some s' \<Rightarrow> run c bs s')"
  by (induction as arbitrary: s) (simp_all split: option.splits)

lemma fill_queue:
  assumes "int m \<le> jobs c" "m \<le> queue_cap c"
  shows "run c (replicate m SourcePush) (init c) =
     Some ((init c)\<lparr>queue := map (\<lambda>j. Job (int j)) [0..<m], src_i := int m\<rparr>)"
  using assms
proof (induction m)
  case 0
  then show ?case by (simp add: init_def)
next
  case (Suc m)
  have r: "replicate (Suc m) SourcePush = replicate m SourcePush @ [SourcePush]"
    by (simp add: replicate_append_same)
  from Suc show ?case
    unfolding r run_append by (simp add: step_def init_def)
qed

lemma pileup_0:
  assumes "int (queue_cap c) \<le> jobs c"
  shows "run c (replicate (queue_cap c) SourcePush) (init c) = Some (pileup c 0)"
  using fill_queue [OF assms order_refl] by (simp add: pileup_def init_def)

lemma pileup_step:
  assumes "workers c = 1" "0 < queue_cap c" "int (queue_cap c + k) < jobs c"
  shows "run c pileup_round (pileup c k) = Some (pileup c (Suc k))"
proof -
  have q: "[k..<k + queue_cap c] = k # [Suc k..<k + queue_cap c]"
    using assms(2) by (simp add: upt_conv_Cons)
  have q': "[Suc k..<Suc k + queue_cap c] = [Suc k..<k + queue_cap c] @ [k + queue_cap c]"
    using assms(2) by simp
  have l: "length [Suc k..<k + queue_cap c] < queue_cap c"
    using assms(2) by simp
  have r: "map (\<lambda>j. Job (int j)) [0..<Suc k] = map (\<lambda>j. Job (int j)) [0..<k] @ [Job (int k)]"
    by simp
  show ?thesis
    using assms(1,3) l
    unfolding pileup_round_def pileup_def q q'
    by (simp add: step_def init_def replicate_append_same add.commute r del: upt_Suc)
qed

lemma pileup_run:
  assumes "workers c = 1" "0 < queue_cap c" "int (queue_cap c + k) \<le> jobs c"
  shows "run c (pileup_actions c k) (init c) = Some (pileup c k)"
  using assms(3)
proof (induction k)
  case 0
  then show ?case
    by (simp add: pileup_actions_def pileup_0)
next
  case (Suc k)
  have c: "concat (replicate (Suc k) pileup_round) = concat (replicate k pileup_round) @ pileup_round"
    by (metis concat.simps(2) concat_append concat.simps(1) append_Nil2 replicate_Suc replicate_append_same)
  have "pileup_actions c (Suc k) = pileup_actions c k @ pileup_round"
    by (simp only: pileup_actions_def c append_assoc)
  moreover from Suc have "run c (pileup_actions c k) (init c) = Some (pileup c k)"
    by simp
  moreover from Suc.prems have "int (queue_cap c + k) < jobs c"
    by simp
  ultimately show ?case
    by (simp add: run_append pileup_step [OF assms(1,2)])
qed

lemma in_flight_pileup: "workers c = 1 \<Longrightarrow> in_flight (pileup c k) = k"
  by (simp add: in_flight_def pileup_def init_def)

text \<open>
  C7, as stated, fails. With the capacity 512 of main, one worker and 1026 jobs, the run
  above reaches after 514 rounds a state in which the queue is full and 514 jobs have
  been taken from it without a result: more than \<open>512 + 1\<close>.
\<close>

theorem in_flight_exceeds_bound:
  "run (main_config 1026 1) (pileup_actions (main_config 1026 1) 514) (init (main_config 1026 1))
     = Some (pileup (main_config 1026 1) 514)
   \<and> in_flight (pileup (main_config 1026 1) 514) = 514
   \<and> length (queue (pileup (main_config 1026 1) 514)) = queue_cap (main_config 1026 1)
   \<and> queue_cap (main_config 1026 1) + nat (workers (main_config 1026 1)) = 513
   \<and> \<not> in_flight (pileup (main_config 1026 1) 514)
         \<le> queue_cap (main_config 1026 1) + nat (workers (main_config 1026 1))"
proof -
  have h: "workers (main_config 1026 1) = 1" "0 < queue_cap (main_config 1026 1)"
    "int (queue_cap (main_config 1026 1) + 514) \<le> jobs (main_config 1026 1)"
    by (simp_all add: main_config_def)
  from pileup_run [OF h] in_flight_pileup [OF h(1), of 514] show ?thesis
    by (simp add: main_config_def pileup_def)
qed

text \<open>
  C7, amended. In every reachable state the workers hold at most one job each, the job
  queue holds at most its capacity, and the number of jobs in flight is at most the
  number of workers plus the number of waiting re-submissions, and at most the number
  of jobs; it is within capacity plus workers whenever no re-submission is waiting.
\<close>

theorem in_flight_bound:
  assumes "reachable c s"
  shows "size (\<Sum>pc\<leftarrow>pool s. held pc) \<le> nat (workers c)
     \<and> length (queue s) \<le> queue_cap c
     \<and> in_flight s \<le> nat (workers c) + length (retries s)
     \<and> int (in_flight s) \<le> max 0 (jobs c)
     \<and> (retries s = [] \<longrightarrow> in_flight s \<le> queue_cap c + nat (workers c))"
proof -
  from reachable_invariant [OF assms]
  have src: "inv_source c s" and pl: "inv_pool c s"
    by (simp_all add: invariant_def)
  have h: "size (\<Sum>pc\<leftarrow>pool s. held pc) \<le> nat (workers c)"
    using size_held_le [of "pool s"] pl by (simp add: inv_pool_def)
  have q: "length (queue s) \<le> queue_cap c"
    using pl by (simp add: inv_pool_def)
  have "in_flight s \<le> size (tokens s)"
    by (simp add: in_flight_def size_tokens)
  also have "\<dots> = nat (src_i s)"
    by (rule size_tokens_source [OF src])
  finally have j: "int (in_flight s) \<le> max 0 (jobs c)"
    using src by (auto simp: inv_source_def)
  from h q j show ?thesis
    by (simp add: in_flight_def)
qed

theorem in_flight_bound_witness:
  "reachable (main_config 1026 1) (pileup (main_config 1026 1) 514)
   \<and> in_flight (pileup (main_config 1026 1) 514)
       \<le> nat (workers (main_config 1026 1)) + length (retries (pileup (main_config 1026 1) 514))
   \<and> length (retries (pileup (main_config 1026 1) 514)) = 514"
proof -
  have h: "workers (main_config 1026 1) = 1" "0 < queue_cap (main_config 1026 1)"
    "int (queue_cap (main_config 1026 1) + 514) \<le> jobs (main_config 1026 1)"
    by (simp_all add: main_config_def)
  have r: "reachable (main_config 1026 1) (pileup (main_config 1026 1) 514)"
    by (rule reachable_run [OF pileup_run [OF h]])
  from in_flight_bound [OF r] r show ?thesis
    by (simp add: pileup_def)
qed


section \<open>The binary64 rounding is monotone\<close>

lemma round_half_even_cases:
  "round_half_even x = \<lfloor>x\<rfloor> \<or> round_half_even x = \<lfloor>x\<rfloor> + 1"
  by (simp add: round_half_even_def Let_def)

lemma round_half_even_int [simp]: "round_half_even (of_int m) = m"
  by (simp add: round_half_even_def Let_def)

lemma round_half_even_ge: "of_int m \<le> x \<Longrightarrow> m \<le> round_half_even x"
  using round_half_even_cases [of x] le_floor_iff [of m x] by linarith

lemma round_half_even_le:
  assumes "x \<le> of_int m"
  shows "round_half_even x \<le> m"
proof (cases "x = of_int m")
  case True
  then show ?thesis by simp
next
  case False
  with assms have "x < of_int m" by simp
  then have "\<lfloor>x\<rfloor> < m" by (simp add: floor_less_iff)
  with round_half_even_cases [of x] show ?thesis by linarith
qed

lemma round_half_even_mono:
  assumes "x \<le> y"
  shows "round_half_even x \<le> round_half_even y"
proof (cases "\<lfloor>x\<rfloor> = \<lfloor>y\<rfloor>")
  case True
  with assms have "x - of_int \<lfloor>x\<rfloor> \<le> y - of_int \<lfloor>y\<rfloor>" by simp
  with True show ?thesis
    by (auto simp: round_half_even_def Let_def)
next
  case False
  with assms have "\<lfloor>x\<rfloor> < \<lfloor>y\<rfloor>"
    using floor_mono [OF assms] by linarith
  moreover have "\<lfloor>y\<rfloor> \<le> round_half_even y"
    using round_half_even_cases [of y] by linarith
  ultimately show ?thesis
    using round_half_even_cases [of x] by linarith
qed

lemma ilog2_bounds:
  assumes "0 < x"
  shows "2 powi ilog2 x \<le> x" and "x < 2 powi (ilog2 x + 1)"
proof -
  show "2 powi ilog2 x \<le> x"
  proof (cases "1 \<le> x")
    case True
    then have n: "0 < \<lfloor>x\<rfloor>" by simp
    from bitlen_bounds [OF n] have "2 ^ nat (bitlen \<lfloor>x\<rfloor> - 1) \<le> \<lfloor>x\<rfloor>" by simp
    then have "(2::real) ^ nat (bitlen \<lfloor>x\<rfloor> - 1) \<le> of_int \<lfloor>x\<rfloor>"
      by (metis of_int_le_iff of_int_numeral of_int_power)
    also have "\<dots> \<le> x" by simp
    finally have "(2::real) ^ nat (bitlen \<lfloor>x\<rfloor> - 1) \<le> x" .
    moreover have "0 \<le> bitlen \<lfloor>x\<rfloor> - 1"
      using n by (simp add: bitlen_alt_def)
    ultimately show ?thesis
      using True by (simp add: ilog2_def power_int_def)
  next
    case False
    define c where "c = \<lceil>1 / x\<rceil>"
    from False assms have y: "1 < 1 / x" by simp
    then have c2: "2 \<le> c" unfolding c_def by (simp add: le_ceiling_iff)
    then have m: "0 < c - 1" by simp
    from bitlen_bounds [OF m] have "c - 1 < 2 ^ nat (bitlen (c - 1))" by simp
    then have "c \<le> 2 ^ nat (bitlen (c - 1))" by simp
    then have "of_int c \<le> (2::real) ^ nat (bitlen (c - 1))"
      by (metis of_int_le_iff of_int_numeral of_int_power)
    moreover have "1 / x \<le> of_int c" unfolding c_def by simp
    ultimately have "1 / x \<le> (2::real) ^ nat (bitlen (c - 1))" by linarith
    then have "1 / 2 ^ nat (bitlen (c - 1)) \<le> x"
      using assms by (simp add: field_simps)
    moreover have "0 < bitlen (c - 1)"
      using m by (simp add: bitlen_alt_def)
    ultimately show ?thesis
      using False by (simp add: ilog2_def c_def power_int_def field_simps)
  qed
  show "x < 2 powi (ilog2 x + 1)"
  proof (cases "1 \<le> x")
    case True
    then have n: "0 < \<lfloor>x\<rfloor>" by simp
    from bitlen_bounds [OF n] have "\<lfloor>x\<rfloor> + 1 \<le> 2 ^ nat (bitlen \<lfloor>x\<rfloor>)" by simp
    then have "of_int (\<lfloor>x\<rfloor> + 1) \<le> (2::real) ^ nat (bitlen \<lfloor>x\<rfloor>)"
      by (metis of_int_le_iff of_int_numeral of_int_power)
    moreover have "x < of_int (\<lfloor>x\<rfloor> + 1)" by linarith
    ultimately have "x < (2::real) ^ nat (bitlen \<lfloor>x\<rfloor>)" by linarith
    moreover have "0 \<le> bitlen \<lfloor>x\<rfloor>" by (rule bitlen_nonneg)
    ultimately show ?thesis
      using True by (simp add: ilog2_def power_int_def)
  next
    case False
    define c where "c = \<lceil>1 / x\<rceil>"
    from False assms have y: "1 < 1 / x" by simp
    then have c2: "2 \<le> c" unfolding c_def by (simp add: le_ceiling_iff)
    then have m: "0 < c - 1" by simp
    have k: "0 < bitlen (c - 1)"
      using m by (simp add: bitlen_alt_def)
    from bitlen_bounds [OF m] have "2 ^ nat (bitlen (c - 1) - 1) \<le> c - 1" by simp
    then have "(2::real) ^ nat (bitlen (c - 1) - 1) \<le> of_int (c - 1)"
      by (metis of_int_le_iff of_int_numeral of_int_power)
    moreover have "of_int (c - 1) < 1 / x" unfolding c_def by linarith
    ultimately have "(2::real) ^ nat (bitlen (c - 1) - 1) < 1 / x" by linarith
    then have "x < 1 / 2 ^ nat (bitlen (c - 1) - 1)"
      using assms by (simp add: field_simps)
    moreover have "- bitlen (c - 1) + 1 \<le> 0" using k by simp
    moreover have "nat (- (- bitlen (c - 1) + 1)) = nat (bitlen (c - 1) - 1)" by simp
    ultimately show ?thesis
      using False unfolding ilog2_def c_def [symmetric] power_int_def
      by (simp add: field_simps)
  qed
qed


lemma float64_pos:
  "0 < x \<Longrightarrow>
     float64 x = of_int (round_half_even (x / 2 powi (ilog2 x - 52))) * 2 powi (ilog2 x - 52)"
  by (simp add: float64_def Let_def)

lemma float64_bounds:
  assumes "0 < x"
  shows "2 powi ilog2 x \<le> float64 x" and "float64 x \<le> 2 powi (ilog2 x + 1)"
proof -
  define u :: real where "u = 2 powi (ilog2 x - 52)"
  have u: "0 < u" by (simp add: u_def)
  have lo: "2 powi ilog2 x = of_int (2 ^ 52) * u"
    unfolding u_def by (simp add: power_int_diff)
  have hi: "2 powi (ilog2 x + 1) = of_int (2 ^ 53) * u"
    unfolding u_def by (simp add: power_int_diff power_int_add)
  from ilog2_bounds(1) [OF assms] lo u have "of_int (2 ^ 52) \<le> x / u"
    by (simp add: field_simps)
  then have "2 ^ 52 \<le> round_half_even (x / u)"
    by (rule round_half_even_ge)
  then have "of_int (2 ^ 52) \<le> (of_int (round_half_even (x / u)) :: real)"
    by (simp only: of_int_le_iff)
  with u have "of_int (2 ^ 52) * u \<le> of_int (round_half_even (x / u)) * u"
    by (simp only: mult_le_cancel_right_pos)
  then show "2 powi ilog2 x \<le> float64 x"
    unfolding lo float64_pos [OF assms] u_def .
  from ilog2_bounds(2) [OF assms] hi u have "x / u \<le> of_int (2 ^ 53)"
    by (simp add: field_simps)
  then have "round_half_even (x / u) \<le> 2 ^ 53"
    by (rule round_half_even_le)
  then have "(of_int (round_half_even (x / u)) :: real) \<le> of_int (2 ^ 53)"
    by (simp only: of_int_le_iff)
  with u have "of_int (round_half_even (x / u)) * u \<le> of_int (2 ^ 53) * u"
    by (simp only: mult_le_cancel_right_pos)
  then show "float64 x \<le> 2 powi (ilog2 x + 1)"
    unfolding hi float64_pos [OF assms] u_def .
qed

lemma float64_nonneg: "0 \<le> x \<Longrightarrow> 0 \<le> float64 x"
proof (cases "x = 0")
  case True
  then show ?thesis by (simp add: float64_def)
next
  case False
  assume "0 \<le> x"
  with False have p: "0 < x" by simp
  have "(0::real) \<le> 2 powi ilog2 x" by simp
  also note float64_bounds(1) [OF p]
  finally show ?thesis .
qed

lemma float64_mono:
  assumes "0 \<le> x" "x \<le> y"
  shows "float64 x \<le> float64 y"
proof (cases "x = 0")
  case True
  with assms float64_nonneg [of y] show ?thesis
    by (simp add: float64_def)
next
  case False
  with assms have px: "0 < x" and py: "0 < y" by simp_all
  have "2 powi ilog2 x \<le> x" by (rule ilog2_bounds(1) [OF px])
  also note assms(2)
  also note ilog2_bounds(2) [OF py]
  finally have lt: "(2::real) powi ilog2 x < 2 powi (ilog2 y + 1)" .
  have le: "ilog2 x \<le> ilog2 y"
  proof (rule ccontr)
    assume "\<not> ilog2 x \<le> ilog2 y"
    then have "ilog2 y + 1 \<le> ilog2 x" by simp
    then have "(2::real) powi (ilog2 y + 1) \<le> 2 powi ilog2 x"
      by (rule power_int_increasing) simp
    with lt show False by simp
  qed
  show ?thesis
  proof (cases "ilog2 x = ilog2 y")
    case True
    define u :: real where "u = 2 powi (ilog2 y - 52)"
    have u: "0 < u" by (simp add: u_def)
    from assms(2) u have "x / u \<le> y / u"
      by (simp add: divide_le_cancel)
    then have "round_half_even (x / u) \<le> round_half_even (y / u)"
      by (rule round_half_even_mono)
    then have "(of_int (round_half_even (x / u)) :: real) \<le> of_int (round_half_even (y / u))"
      by (simp only: of_int_le_iff)
    with u have "of_int (round_half_even (x / u)) * u \<le> of_int (round_half_even (y / u)) * u"
      by (simp only: mult_le_cancel_right_pos)
    then show ?thesis
      unfolding float64_pos [OF px] float64_pos [OF py] True u_def .
  next
    case False
    with le have "ilog2 x + 1 \<le> ilog2 y" by simp
    then have "(2::real) powi (ilog2 x + 1) \<le> 2 powi ilog2 y"
      by (rule power_int_increasing) simp
    with float64_bounds(2) [OF px] float64_bounds(1) [OF py] show ?thesis
      by linarith
  qed
qed

lemma float64_1: "float64 1 = 1"
  by (simp add: float64_def ilog2_def round_half_even_def Let_def compute_bitlen)

lemma float64_100: "float64 100 = 100"
  by (simp add: float64_def ilog2_def round_half_even_def Let_def compute_bitlen)

lemma percentage_bounds:
  assumes "0 \<le> i" "i < N"
  shows "0 \<le> percentage N i" and "percentage N i \<le> 100"
proof -
  define a where "a = float64 (of_int i)"
  define b where "b = float64 (of_int N)"
  define q where "q = float64 (a / b)"
  have a0: "0 \<le> a"
    unfolding a_def using assms(1) by (intro float64_nonneg) simp
  have "float64 1 \<le> b"
    unfolding b_def using assms by (intro float64_mono) simp_all
  then have b1: "1 \<le> b" by (simp add: float64_1)
  have ab: "a \<le> b"
    unfolding a_def b_def using assms by (intro float64_mono) simp_all
  from a0 b1 have r0: "0 \<le> a / b" by simp
  from ab b1 have r1: "a / b \<le> 1" by simp
  have q0: "0 \<le> q"
    unfolding q_def by (rule float64_nonneg [OF r0])
  have "q \<le> float64 1"
    unfolding q_def by (rule float64_mono [OF r0 r1])
  then have q1: "q \<le> 1" by (simp add: float64_1)
  from q0 have m0: "0 \<le> q * 100" by simp
  from q1 have m1: "q * 100 \<le> 100" by simp
  have p: "percentage N i = \<lceil>float64 (q * 100)\<rceil>"
    by (simp add: percentage_def q_def a_def b_def)
  have "0 \<le> float64 (q * 100)"
    by (rule float64_nonneg [OF m0])
  then show "0 \<le> percentage N i"
    unfolding p by simp
  have "float64 (q * 100) \<le> float64 100"
    by (rule float64_mono [OF m0 m1])
  then have "float64 (q * 100) \<le> 100" by (simp add: float64_100)
  then show "percentage N i \<le> 100"
    unfolding p by (simp add: ceiling_le_iff)
qed


section \<open>Progress notifications\<close>

lemma smod_5_iff: "(p::int) smod 5 = 0 \<longleftrightarrow> 5 dvd p"
  by (auto simp: signed_modulo_int_def sgn_if dvd_eq_mod_eq_0 zmod_zminus1_eq_if split: if_splits)

lemma progress_lines_record: "progress_lines (record_result r lg) = progress_lines lg"
  by (simp add: record_result_def progress_lines_append split: option.splits)

lemma progress_lines_announce:
  "announce N i (a, lg) = (a', lg') \<Longrightarrow>
     a' = max a (percentage N i)
     \<and> progress_lines lg' = progress_lines lg
          @ (if percentage N i > a \<and> 5 dvd percentage N i then [percentage N i] else [])"
  by (auto simp: announce_def Let_def progress_lines_append smod_5_iff split: if_splits)

lemma result_loop_progress:
  assumes "result_loop N i a lg rs = Some (i', a', lg', rest)"
  shows "progress_lines lg' =
     progress_lines lg @ filter (\<lambda>p. 5 dvd p) (rising a (map (percentage N) [i..N - 1]))"
  using assms
proof (induction N i a lg rs rule: result_loop.induct)
  case (1 N i a lg rs)
  show ?case
  proof (cases "i < N")
    case False
    with "1.prems" show ?thesis
      by (simp add: result_loop.simps [of N i])
  next
    case True
    obtain a1 lg1 where an: "announce N i (a, lg) = (a1, lg1)"
      by (cases "announce N i (a, lg)")
    from "1.prems" True an obtain r rs' where rs: "rs = r # rs'"
      and rec: "result_loop N (i + 1) a1 (record_result r lg1) rs' = Some (i', a', lg', rest)"
      by (auto simp: result_loop.simps [of N i] split: list.splits)
    from "1.IH" [OF True an [symmetric] rs rec]
    have ih: "progress_lines lg' = progress_lines lg1
        @ filter (\<lambda>p. 5 dvd p) (rising a1 (map (percentage N) [i + 1..N - 1]))"
      by (simp add: progress_lines_record)
    have up: "[i..N - 1] = i # [i + 1..N - 1]"
      using True by (simp add: upto_rec1)
    from progress_lines_announce [OF an] show ?thesis
      unfolding ih up by (auto simp: max_def)
  qed
qed

lemma rising_props:
  assumes "\<forall>p\<in>set ps. P p"
  shows "sorted_wrt (<) (rising a ps) \<and> (\<forall>p\<in>set (rising a ps). a < p \<and> P p \<and> p \<in> set ps)"
  using assms
proof (induction ps arbitrary: a)
  case Nil
  show ?case by simp
next
  case (Cons p ps)
  then have ih: "\<And>b. sorted_wrt (<) (rising b ps)
      \<and> (\<forall>q\<in>set (rising b ps). b < q \<and> P q \<and> q \<in> set ps)"
    by simp
  from Cons.prems have p: "P p" by simp
  show ?case
  proof (cases "p > a")
    case True
    with ih [of p] p show ?thesis by auto
  next
    case False
    with ih [of a] show ?thesis by auto
  qed
qed

text \<open>
  The result loop returns when the channel delivers \<open>N\<close> results or more. At the top of
  iteration \<open>i\<close>, \<open>i\<close> results having been received, main computes \<open>percentage N i\<close> in
  binary64 and announces it when it exceeds every percentage computed before and is a
  multiple of 5. So the notifications of a run are the multiples of 5 among the rising
  percentages of \<open>i = 0, ..., N - 1\<close>: strictly increasing, each at most once, each a
  multiple of 5 between 5 and 100.
\<close>

lemma notifications_returns:
  assumes "nat N \<le> length rs"
  shows "notifications N rs
     = Some (filter (\<lambda>p. 5 dvd p) (rising 0 (map (percentage N) [0..N - 1])))"
proof -
  from result_loop_consumes [of N 0 rs 0 "[]"] assms
  obtain a lg where r: "result_loop N 0 0 [] rs = Some (max 0 N, a, lg, drop (nat N) rs)"
    by auto
  from result_loop_progress [OF r] r show ?thesis
    by (simp add: notifications_def)
qed

lemma length_succeeded_results: "length (succeeded_results N) = nat N"
  by (simp add: succeeded_results_def)

lemma notifications_shape:
  assumes "nat N \<le> length rs"
  shows "\<exists>ps. notifications N rs = Some ps
     \<and> sorted_wrt (<) ps \<and> distinct ps
     \<and> (\<forall>p\<in>set ps. 5 dvd p \<and> 5 \<le> p \<and> p \<le> 100 \<and> p \<in> percentage N ` {0..<N})"
proof -
  define R where "R = rising 0 (map (percentage N) [0..N - 1])"
  define ps where "ps = filter (\<lambda>p. 5 dvd p) R"
  define P where "P = (\<lambda>p. p \<le> 100 \<and> p \<in> percentage N ` {0..<N})"
  from notifications_returns [OF assms] have n: "notifications N rs = Some ps"
    by (simp only: ps_def R_def)
  have pb: "P p" if "p \<in> set (map (percentage N) [0..N - 1])" for p
  proof -
    from that obtain j where j: "0 \<le> j" "j < N" "p = percentage N j"
      by auto
    from j(1,2) have "j \<in> {0..<N}" by simp
    then have "percentage N j \<in> percentage N ` {0..<N}"
      by (rule imageI)
    with percentage_bounds(2) [OF j(1,2)] j(3) show ?thesis
      by (simp add: P_def)
  qed
  then have "\<forall>p\<in>set (map (percentage N) [0..N - 1]). P p"
    by blast
  from rising_props [OF this, of 0]
  have s: "sorted_wrt (<) R" and b: "\<forall>p\<in>set R. 0 < p \<and> P p"
    unfolding R_def by blast+
  have s': "sorted_wrt (<) ps"
    unfolding ps_def by (rule sorted_wrt_filter [OF s])
  then have d: "distinct ps"
    using strict_sorted_iff [of ps] by simp
  have five: "5 \<le> p" if "0 < p" "5 dvd p" for p :: int
    using that by presburger
  have all: "5 dvd p \<and> 5 \<le> p \<and> p \<le> 100 \<and> p \<in> percentage N ` {0..<N}" if "p \<in> set ps" for p
  proof -
    from that have m: "p \<in> set R" and dv: "5 dvd p"
      unfolding ps_def by simp_all
    from b m have "0 < p" and "P p" by blast+
    with dv five [of p] show ?thesis
      by (simp add: P_def)
  qed
  then have "\<forall>p\<in>set ps. 5 dvd p \<and> 5 \<le> p \<and> p \<le> 100 \<and> p \<in> percentage N ` {0..<N}"
    by blast
  with n s' d show ?thesis
    by (intro exI [of _ ps] conjI)
qed

text \<open>The percentages of runs with 20, 7, 3 and 200 jobs, evaluated in binary64.\<close>

lemma percentage_20:
  "percentage 20 0 = 0"
  "percentage 20 1 = 5"
  "percentage 20 2 = 10"
  "percentage 20 3 = 15"
  "percentage 20 4 = 20"
  "percentage 20 5 = 25"
  "percentage 20 6 = 30"
  "percentage 20 7 = 35"
  "percentage 20 8 = 40"
  "percentage 20 9 = 45"
  "percentage 20 10 = 50"
  "percentage 20 11 = 56"
  "percentage 20 12 = 60"
  "percentage 20 13 = 65"
  "percentage 20 14 = 70"
  "percentage 20 15 = 75"
  "percentage 20 16 = 80"
  "percentage 20 17 = 85"
  "percentage 20 18 = 90"
  "percentage 20 19 = 95"
  by (simp_all add: float_eval)

lemma percentage_7:
  "percentage 7 0 = 0"
  "percentage 7 1 = 15"
  "percentage 7 2 = 29"
  "percentage 7 3 = 43"
  "percentage 7 4 = 58"
  "percentage 7 5 = 72"
  "percentage 7 6 = 86"
  by (simp_all add: float_eval)

lemma percentage_3:
  "percentage 3 0 = 0"
  "percentage 3 1 = 34"
  "percentage 3 2 = 67"
  by (simp_all add: float_eval)

lemma ceiling_half: "\<lceil>1 / 2 :: real\<rceil> = 1"
  by (simp add: ceiling_eq_iff)

lemma percentages_200:
  "map (percentage 200) [0..200 - 1] =
     [0, 1, 1, 2, 2, 3, 3, 4, 4, 5, 5, 6, 6, 7, 8, 8, 8, 9, 9, 10, 10, 11, 11, 12, 12,
      13, 13, 14, 15, 15, 15, 16, 16, 17, 17, 18, 18, 19, 19, 20, 20, 21, 21, 22, 22,
      23, 23, 24, 24, 25, 25, 26, 26, 27, 27, 28, 29, 29, 29, 30, 30, 31, 31, 32, 32,
      33, 33, 34, 34, 35, 35, 36, 36, 37, 37, 38, 38, 39, 39, 40, 40, 41, 41, 42, 42,
      43, 43, 44, 44, 45, 45, 46, 46, 47, 47, 48, 48, 49, 49, 50, 50, 51, 51, 52, 52,
      53, 53, 54, 54, 55, 56, 56, 57, 57, 57, 58, 58, 59, 59, 60, 60, 61, 61, 62, 62,
      63, 63, 64, 64, 65, 65, 66, 66, 67, 67, 68, 68, 69, 69, 70, 70, 71, 71, 72, 72,
      73, 73, 74, 74, 75, 75, 76, 76, 77, 77, 78, 78, 79, 79, 80, 80, 81, 81, 82, 82,
      83, 83, 84, 84, 85, 85, 86, 86, 87, 87, 88, 88, 89, 89, 90, 90, 91, 91, 92, 92,
      93, 93, 94, 94, 95, 95, 96, 96, 97, 97, 98, 98, 99, 99, 100]"
  by (simp add: float_eval upto_rec1 ceiling_half)

lemma progress_covers_200:
  "notifications 200 (succeeded_results 200)
     = Some [5, 10, 15, 20, 25, 30, 35, 40, 45, 50, 55, 60, 65, 70, 75, 80, 85, 90, 95, 100]"
proof -
  have "nat 200 \<le> length (succeeded_results 200)"
    by (simp only: length_succeeded_results)
  from notifications_returns [OF this] show ?thesis
    unfolding percentages_200 by simp
qed

text \<open>
  C3. The comment of line 87 promises progress \<^verbatim>\<open>in 5% chunks\<close>, and with 200 jobs the
  loop announces 5, 10, ..., 100, all twenty, each once and in increasing order
  (\<open>progress_covers_200\<close>). It does not in every run. With 20 jobs eleven results of
  twenty are 55 per cent, but \<^verbatim>\<open>float64(11) / float64(20) * 100\<close> is the binary64 number
  next above 55, its ceiling is 56, and 55 is never announced; the last percentage
  computed is 95, that of iteration 19, so 100 is not announced either. With 7 jobs the
  only notification is 15, with 3 jobs there is none.
\<close>

theorem progress_skips_thresholds:
  "percentage 20 11 = 56
   \<and> notifications 20 (succeeded_results 20)
       = Some [5, 10, 15, 20, 25, 30, 35, 40, 45, 50, 60, 65, 70, 75, 80, 85, 90, 95]
   \<and> notifications 7 (succeeded_results 7) = Some [15]
   \<and> notifications 3 (succeeded_results 3) = Some []"
proof -
  have a: "notifications 20 (succeeded_results 20)
       = Some [5, 10, 15, 20, 25, 30, 35, 40, 45, 50, 60, 65, 70, 75, 80, 85, 90, 95]"
    by (simp add: notifications_def succeeded_results_def upto_rec1 result_loop.simps
          announce_def record_result_def percentage_20 signed_modulo_int_def)
  have b: "notifications 7 (succeeded_results 7) = Some [15]"
    by (simp add: notifications_def succeeded_results_def upto_rec1 result_loop.simps
          announce_def record_result_def percentage_7 signed_modulo_int_def)
  have c: "notifications 3 (succeeded_results 3) = Some []"
    by (simp add: notifications_def succeeded_results_def upto_rec1 result_loop.simps
          announce_def record_result_def percentage_3 signed_modulo_int_def)
  show ?thesis
    by (intro conjI percentage_20(12) a b c)
qed


section \<open>Progress and completion\<close>

lemma weight_update:
  "w < length ps \<Longrightarrow>
     (\<Sum>pc\<leftarrow>ps[w := x]. worker_weight pc) + worker_weight (ps ! w)
       = (\<Sum>pc\<leftarrow>ps. worker_weight pc) + worker_weight x"
proof (induction ps arbitrary: w)
  case Nil
  then show ?case by simp
next
  case (Cons p ps)
  show ?case
  proof (cases w)
    case 0
    then show ?thesis by simp
  next
    case (Suc v)
    with Cons.prems have "v < length ps" by simp
    from Cons.IH [OF this] Suc show ?thesis by simp
  qed
qed

lemma remaining_decreases:
  assumes "step c a s = Some s'" "\<not> failing a"
  shows "remaining c s' < remaining c s"
proof -
  from assms(1) have run: "status s = Running" and f: "fire c a s = Some s'"
    by (simp_all add: step_def split: if_splits)
  show ?thesis
  proof (cases a)
    case SourcePush
    with f run show ?thesis
      by (auto simp: remaining_def nat_diff_distrib split: if_splits)
  next
    case (Dial w err)
    with f run assms(2) weight_update [of w "pool s" Receiving] show ?thesis
      by (auto simp: remaining_def split: if_splits option.splits)
  next
    case (Receive w)
    with f run weight_update [of w "pool s" Returned]
      weight_update [of w "pool s" "Inserting (hd (queue s))"] show ?thesis
      by (auto simp: remaining_def split: if_splits list.splits)
  next
    case (Insert w err)
    with f obtain job where j: "w < length (pool s)" "pool s ! w = Inserting job"
      by (auto split: if_splits worker_pc.splits)
    with Insert f run assms(2)
      weight_update [of w "pool s" "Sending (JobResult (JobId job) (int w) err)"] show ?thesis
      by (auto simp: remaining_def split: if_splits)
  next
    case (Send w)
    with f run weight_update [of w "pool s" Receiving] show ?thesis
      by (auto simp: remaining_def split: if_splits worker_pc.splits)
  next
    case (RetryPush k)
    with f run show ?thesis
      by (auto simp: remaining_def split: if_splits)
  next
    case Announce
    with f run show ?thesis
      by (auto simp: remaining_def split: if_splits prod.splits)
  next
    case Collect
    with f run show ?thesis
      by (auto simp: remaining_def split: if_splits list.splits)
  next
    case CloseQueue
    with f run show ?thesis
      by (auto simp: remaining_def split: if_splits)
  next
    case (Finish e)
    with f run show ?thesis
      by (auto simp: remaining_def split: if_splits sum.splits prod.splits)
  qed
qed


lemma inv_returned_fire:
  assumes "inv_returned s" "fire c a s = Some s'"
  shows "inv_returned s'"
proof (cases a)
  case SourcePush
  with assms show ?thesis by (auto simp: inv_returned_def split: if_splits)
next
  case (Dial w err)
  with assms show ?thesis
    by (auto simp: inv_returned_def nth_list_update split: if_splits option.splits)
next
  case (Receive w)
  with assms show ?thesis
    by (auto simp: inv_returned_def nth_list_update split: if_splits list.splits)
next
  case (Insert w err)
  with assms show ?thesis
    by (auto simp: inv_returned_def nth_list_update split: if_splits worker_pc.splits)
next
  case (Send w)
  with assms show ?thesis
    by (auto simp: inv_returned_def nth_list_update split: if_splits worker_pc.splits)
next
  case (RetryPush k)
  with assms show ?thesis by (auto simp: inv_returned_def split: if_splits)
next
  case Announce
  with assms show ?thesis by (auto simp: inv_returned_def split: if_splits prod.splits)
next
  case Collect
  with assms show ?thesis by (auto simp: inv_returned_def split: if_splits list.splits)
next
  case CloseQueue
  with assms show ?thesis by (auto simp: inv_returned_def split: if_splits)
next
  case (Finish e)
  with assms show ?thesis
    by (auto simp: inv_returned_def split: if_splits sum.splits prod.splits)
qed

lemma reachable_inv_returned: "reachable c s \<Longrightarrow> inv_returned s"
proof (induction rule: reachable.induct)
  case reachable_init
  show ?case by (simp add: inv_returned_def init_def)
next
  case (reachable_step s a s')
  then show ?case
    by (auto simp: step_def split: if_splits intro: inv_returned_fire)
qed

lemma held_receiving: "\<forall>pc\<in>set ps. pc = Receiving \<Longrightarrow> (\<Sum>pc\<leftarrow>ps. held pc) = {#}"
  by (induction ps) simp_all

text \<open>With a worker and room in the channels, a running program is never stuck.\<close>

lemma never_stuck:
  assumes "reachable c s" "status s = Running"
    and "0 < workers c" "0 < queue_cap c" "0 < results_cap c"
  shows "\<exists>a s'. \<not> failing a \<and> step c a s = Some s'"
proof -
  from reachable_invariant [OF assms(1)]
  have m: "inv_main c s" and src: "inv_source c s" and pl: "inv_pool c s"
    by (simp_all add: invariant_def)
  note ret = reachable_inv_returned [OF assms(1)]
  from pl assms(3) have w0: "0 < length (pool s)"
    by (simp add: inv_pool_def)
  show ?thesis
  proof (cases "mpc s")
    case AfterClose
    have "\<exists>s'. step c (Finish 0) s = Some s'"
      using assms(2) AfterClose by (simp add: step_def split: sum.splits prod.splits)
    then show ?thesis
      by (metis failing.simps(10))
  next
    case LoopHead
    show ?thesis
    proof (cases "main_i s < jobs c")
      case True
      have "\<exists>s'. step c Announce s = Some s'"
        using assms(2) LoopHead True by (simp add: step_def split: prod.splits)
      then show ?thesis
        by (metis failing.simps(7))
    next
      case False
      have "\<exists>s'. step c CloseQueue s = Some s'"
        using assms(2) LoopHead False by (simp add: step_def)
      then show ?thesis
        by (metis failing.simps(9))
    qed
  next
    case AwaitResult
    with m have lt: "main_i s < jobs c" and nc: "\<not> queue_closed s"
      and len: "main_i s = int (length (received s))"
      by (simp_all add: inv_main_def)
    show ?thesis
    proof (cases "results s")
      case (Cons r rs)
      have "\<exists>s'. step c Collect s = Some s'"
        using assms(2) AwaitResult Cons by (simp add: step_def)
      then show ?thesis
        by (metis failing.simps(8))
    next
      case Nil
      show ?thesis
      proof (cases "\<exists>w<length (pool s). pool s ! w \<noteq> Receiving")
        case True
        then obtain w where w: "w < length (pool s)" "pool s ! w \<noteq> Receiving"
          by blast
        show ?thesis
        proof (cases "pool s ! w")
          case Connecting
          have "step c (Dial w None) s \<noteq> None"
            using assms(2) w Connecting by (simp add: step_def)
          then show ?thesis
            by (metis failing.simps(1) not_None_eq)
        next
          case Receiving
          with w show ?thesis by simp
        next
          case (Inserting job)
          have "step c (Insert w None) s \<noteq> None"
            using assms(2) w Inserting by (simp add: step_def)
          then show ?thesis
            by (metis failing.simps(2) not_None_eq option.discI)
        next
          case (Sending r)
          have "step c (Send w) s \<noteq> None"
            using assms(2,5) w Sending Nil by (simp add: step_def)
          then show ?thesis
            by (metis failing.simps(5) not_None_eq)
        next
          case Returned
          with ret w nc show ?thesis
            by (simp add: inv_returned_def)
        qed
      next
        case False
        with w0 have rcv: "pool s ! 0 = Receiving" and allr: "\<forall>pc\<in>set (pool s). pc = Receiving"
          by (auto simp: in_set_conv_nth)
        show ?thesis
        proof (cases "queue s")
          case (Cons job q)
          have "step c (Receive 0) s \<noteq> None"
            using assms(2) w0 rcv Cons by (simp add: step_def)
          then show ?thesis
            by (metis failing.simps(4) not_None_eq)
        next
          case qe: Nil
          show ?thesis
          proof (cases "retries s")
            case (Cons job q)
            have "step c (RetryPush 0) s \<noteq> None"
              using assms(2,4) nc qe Cons by (simp add: step_def)
            then show ?thesis
              by (metis failing.simps(6) not_None_eq)
          next
            case re: Nil
            have "src_i s < jobs c"
            proof (rule ccontr)
              assume ge: "\<not> src_i s < jobs c"
              from allr have h0: "(\<Sum>pc\<leftarrow>pool s. held pc) = {#}"
                by (rule held_receiving)
              have "nat (src_i s) = length (received s)"
                using size_tokens [of s] size_tokens_source [OF src] h0 qe re Nil
                by (simp add: emitted_def)
              with src ge lt len show False
                by (auto simp: inv_source_def)
            qed
            then have "step c SourcePush s \<noteq> None"
              using assms(2,4) nc qe by (simp add: step_def)
            then show ?thesis
              by (metis failing.simps(3) not_None_eq)
          qed
        qed
      qed
    qed
  qed
qed


lemma good_run_bounded:
  assumes "run c as s = Some s'" "\<forall>a\<in>set as. \<not> failing a"
  shows "remaining c s' + length as \<le> remaining c s"
  using assms
proof (induction as arbitrary: s)
  case Nil
  then show ?case by simp
next
  case (Cons a as)
  from Cons.prems(1) obtain t where t: "step c a s = Some t" and r: "run c as t = Some s'"
    by (auto split: option.splits)
  from Cons.prems(2) have g: "\<not> failing a" "\<forall>b\<in>set as. \<not> failing b"
    by simp_all
  from Cons.IH [OF r g(2)] remaining_decreases [OF t g(1)] show ?case
    by simp
qed

lemma completes:
  assumes "reachable c s" "0 < workers c" "0 < queue_cap c" "0 < results_cap c"
  shows "\<exists>as s'. (\<forall>a\<in>set as. \<not> failing a) \<and> run c as s = Some s'
           \<and> status s' \<noteq> Running"
  using assms(1)
proof (induction "remaining c s" arbitrary: s rule: less_induct)
  case less
  show ?case
  proof (cases "status s = Running")
    case False
    have "run c [] s = Some s" by simp
    with False show ?thesis
      by (metis empty_iff list.set(1))
  next
    case True
    from never_stuck [OF less.prems True assms(2-4)]
    obtain a t where a: "\<not> failing a" "step c a s = Some t"
      by blast
    from reachable_step [OF less.prems a(2)] have rt: "reachable c t" .
    from less.hyps [OF remaining_decreases [OF a(2,1)] rt]
    obtain as s' where as: "\<forall>b\<in>set as. \<not> failing b" "run c as t = Some s'"
      "status s' \<noteq> Running"
      by blast
    from a as have "(\<forall>b\<in>set (a # as). \<not> failing b) \<and> run c (a # as) s = Some s'
        \<and> status s' \<noteq> Running"
      by simp
    then show ?thesis by blast
  qed
qed

lemma finished_all_received:
  assumes "reachable c s" "status s \<noteq> Running"
  shows "queue_closed s \<and> results s = []
     \<and> mset (map ResJobId (received s)) = mset [0..jobs c - 1]"
proof -
  from reachable_invariant [OF assms(1)]
  have m: "inv_main c s" and src: "inv_source c s" and st: "inv_status c s"
    by (simp_all add: invariant_def)
  from st assms(2) have "mpc s = AfterClose"
    by (cases "status s") (simp_all add: inv_status_def)
  with m have cl: "queue_closed s"
    by (simp add: inv_main_def)
  from closed_all_emitted [OF m src cl]
  have e: "queue s = []" "retries s = []" "(\<Sum>pc\<leftarrow>pool s. held pc) = {#}" "results s = []"
    and ge: "\<not> src_i s < jobs c"
    by simp_all
  from ge src have "[0..src_i s - 1] = [0..jobs c - 1]"
    by (auto simp: inv_source_def)
  with job_ids [OF src] e have "mset (map ResJobId (received s)) = mset [0..jobs c - 1]"
    by (simp add: emitted_def)
  with cl e(4) show ?thesis by simp
qed


section \<open>Failures do not halt the run\<close>

text \<open>
  C5, as stated, fails. main keeps no count of failures, and its closing report has two
  lines, the time of the run and the average per job. In the run \<open>failure_actions\<close> job 0
  fails; in the same run with that \<^verbatim>\<open>Insert\<close> succeeding no job fails. The two runs end
  in the same state of the program and write the same lines, but for the one line
  \<^verbatim>\<open>Job 0 failed on worker 0 (x)\<close>.
\<close>

theorem failure_not_counted:
  "run (main_config 2 1) failure_actions (init (main_config 2 1)) = Some failure_final
   \<and> failures (received failure_final) = [(0, 0, OtherError ''x'')]
   \<and> run (main_config 2 1) (failure_actions[4 := Insert 0 None]) (init (main_config 2 1))
       = Some (failure_final\<lparr>received := [JobResult 0 0 None, JobResult 1 0 None],
                 logged := [LogRunning 2 1, LogConnecting 0, LogProgress 50, LogClosing,
                   LogCompleted 1000, LogAverage 500]\<rparr>)
   \<and> failures [JobResult 0 0 None, JobResult 1 0 None] = []
   \<and> logged failure_final
       = [LogRunning 2 1, LogConnecting 0, LogJobFailed 0 0 (OtherError ''x''),
          LogProgress 50, LogClosing, LogCompleted 1000, LogAverage 500]
   \<and> statistics 2 1000 [] = Inr (500, [LogCompleted 1000, LogAverage 500])"
  by (simp add: failure_actions_def failure_final_def main_config_def init_def
        step_def announce_def record_result_def percentage_2 statistics_def int64_div_def
        signed_divide_int_def signed_take_bit_int_eq_self signed_modulo_int_def)

text \<open>
  C5, amended. The lines \<^verbatim>\<open>Job ... failed on worker ...\<close> of the log are exactly the failed
  results main has received, one line each, in the order received; a count of the
  failures exists only as the number of these lines. Receiving a failed result writes
  its line and leaves main running at the head of its loop, with one more result
  counted in \<open>i\<close>. There main goes on as after any other result: while \<open>i\<close> is less than
  \<^verbatim>\<open>*jobs\<close> it announces and waits for the next result, which it receives as soon as one
  is in the channel; otherwise it closes the queue. Run against \<open>N\<close> results or more, the
  loop of main returns after it has received \<open>N\<close> of them, with one line for each
  failure among these. The closing report adds the two lines of the statistics and
  nothing else, and main returns. Whatever failures have been received, a running
  program with at least one worker and room in the channels has a step to take, and a
  program that has ended has received the result of every job.
\<close>

theorem failure_recorded_once:
  assumes "reachable c s"
  shows "failure_lines (logged s) = failures (received s)
     \<and> length (failure_lines (logged s)) = failed s
     \<and> (status s = Running \<and> mpc s = AwaitResult \<and> results s = r # rs \<longrightarrow>
          (\<exists>s1. step c Collect s = Some s1
             \<and> s1 = s\<lparr>results := rs, received := received s @ [r],
                      logged := logged s @
                        (case Error r of None \<Rightarrow> []
                         | Some e \<Rightarrow> [LogJobFailed (ResJobId r) (WorkerId r) e]),
                      main_i := main_i s + 1, mpc := LoopHead\<rparr>
             \<and> failed s1 = failed s + (if Error r = None then 0 else 1)
             \<and> status s1 = Running
             \<and> (main_i s1 < jobs c \<longrightarrow>
                  (\<exists>s2. step c Announce s1 = Some s2 \<and> status s2 = Running
                     \<and> mpc s2 = AwaitResult \<and> results s2 = rs
                     \<and> (rs \<noteq> [] \<longrightarrow> step c Collect s2 \<noteq> None)))
             \<and> (\<not> main_i s1 < jobs c \<longrightarrow>
                  (\<exists>s2. step c CloseQueue s1 = Some s2 \<and> status s2 = Running
                     \<and> queue_closed s2))))
     \<and> (nat N \<le> length rs' \<longrightarrow>
          (\<exists>a lg. result_loop N 0 0 [] rs' = Some (max 0 N, a, lg, drop (nat N) rs')
             \<and> failure_lines lg = failures (take (nat N) rs')))
     \<and> (statistics (jobs c) elapsed (logged s) = Inr (ns, lg') \<longrightarrow>
          lg' = logged s @ [LogCompleted elapsed, LogAverage ns])
     \<and> (status s = Running \<and> mpc s = AfterClose \<and> jobs c \<noteq> 0 \<longrightarrow>
          (\<exists>s3. step c (Finish elapsed) s = Some s3 \<and> status s3 = Exited
             \<and> failure_lines (logged s3) = failures (received s)))
     \<and> (status s = Running \<and> 0 < workers c \<and> 0 < queue_cap c \<and> 0 < results_cap c \<longrightarrow>
          (\<exists>a s'. \<not> failing a \<and> step c a s = Some s'))
     \<and> (status s \<noteq> Running \<longrightarrow>
          results s = [] \<and> mset (map ResJobId (received s)) = mset [0..jobs c - 1])"
proof -
  have a: "failure_lines (logged s) = failures (received s)"
    by (rule reachable_failure_lines [OF assms])
  have b: "length (failure_lines (logged s)) = failed s"
    by (simp add: a failed_def length_failures)
  from reachable_invariant [OF assms] have m: "inv_main c s"
    by (simp add: invariant_def)
  have c: "\<exists>s1. step c Collect s = Some s1
             \<and> s1 = s\<lparr>results := rs, received := received s @ [r],
                      logged := logged s @
                        (case Error r of None \<Rightarrow> []
                         | Some e \<Rightarrow> [LogJobFailed (ResJobId r) (WorkerId r) e]),
                      main_i := main_i s + 1, mpc := LoopHead\<rparr>
             \<and> failed s1 = failed s + (if Error r = None then 0 else 1)
             \<and> status s1 = Running
             \<and> (main_i s1 < jobs c \<longrightarrow>
                  (\<exists>s2. step c Announce s1 = Some s2 \<and> status s2 = Running
                     \<and> mpc s2 = AwaitResult \<and> results s2 = rs
                     \<and> (rs \<noteq> [] \<longrightarrow> step c Collect s2 \<noteq> None)))
             \<and> (\<not> main_i s1 < jobs c \<longrightarrow>
                  (\<exists>s2. step c CloseQueue s1 = Some s2 \<and> status s2 = Running
                     \<and> queue_closed s2))"
    if h: "status s = Running" "mpc s = AwaitResult" "results s = r # rs"
  proof -
    define s1 where "s1 = s\<lparr>results := rs, received := received s @ [r],
                      logged := logged s @
                        (case Error r of None \<Rightarrow> []
                         | Some e \<Rightarrow> [LogJobFailed (ResJobId r) (WorkerId r) e]),
                      main_i := main_i s + 1, mpc := LoopHead\<rparr>"
    from m h(2) have nc: "\<not> queue_closed s"
      by (simp add: inv_main_def)
    have c1: "step c Collect s = Some s1"
      using h by (simp add: step_def record_result_def s1_def split: option.splits)
    have c2: "failed s1 = failed s + (if Error r = None then 0 else 1)"
      by (simp add: failed_def s1_def)
    have c3: "status s1 = Running"
      using h(1) by (simp add: s1_def)
    have c4: "\<exists>s2. step c Announce s1 = Some s2 \<and> status s2 = Running
                     \<and> mpc s2 = AwaitResult \<and> results s2 = rs
                     \<and> (rs \<noteq> [] \<longrightarrow> step c Collect s2 \<noteq> None)"
      if "main_i s1 < jobs c"
      using that h(1)
      by (cases rs) (auto simp: step_def s1_def split: prod.splits)
    have c5: "\<exists>s2. step c CloseQueue s1 = Some s2 \<and> status s2 = Running \<and> queue_closed s2"
      if "\<not> main_i s1 < jobs c"
      using that h(1) nc by (simp add: step_def s1_def)
    from c1 c2 c3 c4 c5 show ?thesis
      unfolding s1_def [symmetric] by blast
  qed
  have d: "\<exists>a lg. result_loop N 0 0 [] rs' = Some (max 0 N, a, lg, drop (nat N) rs')
             \<and> failure_lines lg = failures (take (nat N) rs')"
    if "nat N \<le> length rs'"
    using result_loop_consumes [of N 0 rs' 0 "[]"] that by simp
  have e: "lg' = logged s @ [LogCompleted elapsed, LogAverage ns]"
    if "statistics (jobs c) elapsed (logged s) = Inr (ns, lg')"
    using that by (auto simp: statistics_def split: sum.splits)
  have c': "status s = Running \<and> mpc s = AwaitResult \<and> results s = r # rs \<longrightarrow>
          (\<exists>s1. step c Collect s = Some s1
             \<and> s1 = s\<lparr>results := rs, received := received s @ [r],
                      logged := logged s @
                        (case Error r of None \<Rightarrow> []
                         | Some e \<Rightarrow> [LogJobFailed (ResJobId r) (WorkerId r) e]),
                      main_i := main_i s + 1, mpc := LoopHead\<rparr>
             \<and> failed s1 = failed s + (if Error r = None then 0 else 1)
             \<and> status s1 = Running
             \<and> (main_i s1 < jobs c \<longrightarrow>
                  (\<exists>s2. step c Announce s1 = Some s2 \<and> status s2 = Running
                     \<and> mpc s2 = AwaitResult \<and> results s2 = rs
                     \<and> (rs \<noteq> [] \<longrightarrow> step c Collect s2 \<noteq> None)))
             \<and> (\<not> main_i s1 < jobs c \<longrightarrow>
                  (\<exists>s2. step c CloseQueue s1 = Some s2 \<and> status s2 = Running
                     \<and> queue_closed s2)))"
    using c by blast
  have d': "nat N \<le> length rs' \<longrightarrow>
          (\<exists>a lg. result_loop N 0 0 [] rs' = Some (max 0 N, a, lg, drop (nat N) rs')
             \<and> failure_lines lg = failures (take (nat N) rs'))"
    using d by blast
  have e': "statistics (jobs c) elapsed (logged s) = Inr (ns, lg') \<longrightarrow>
          lg' = logged s @ [LogCompleted elapsed, LogAverage ns]"
    using e by blast
  have f: "status s = Running \<and> mpc s = AfterClose \<and> jobs c \<noteq> 0 \<longrightarrow>
          (\<exists>s3. step c (Finish elapsed) s = Some s3 \<and> status s3 = Exited
             \<and> failure_lines (logged s3) = failures (received s))"
    using a by (simp add: step_def statistics_def int64_div_def failure_lines_append)
  have g: "status s = Running \<and> 0 < workers c \<and> 0 < queue_cap c \<and> 0 < results_cap c \<longrightarrow>
          (\<exists>a s'. \<not> failing a \<and> step c a s = Some s')"
    using never_stuck [OF assms] by blast
  have h: "status s \<noteq> Running \<longrightarrow>
          results s = [] \<and> mset (map ResJobId (received s)) = mset [0..jobs c - 1]"
    using finished_all_received [OF assms] by blast
  show ?thesis
    by (rule conjI [OF a conjI [OF b conjI [OF c' conjI [OF d' conjI [OF e'
          conjI [OF f conjI [OF g h]]]]]]])
qed

theorem failure_recorded_once_witness:
  "reachable (main_config 2 1) failure_awaiting
   \<and> status failure_awaiting = Running \<and> mpc failure_awaiting = AwaitResult
   \<and> results failure_awaiting = [JobResult 0 0 (Some (OtherError ''x'')), JobResult 1 0 None]
   \<and> run (main_config 2 1) [Collect, Announce, Collect, CloseQueue, Finish 1000]
        failure_awaiting = Some failure_final
   \<and> received failure_final = [JobResult 0 0 (Some (OtherError ''x'')), JobResult 1 0 None]
   \<and> failure_lines (logged failure_final) = [(0, 0, OtherError ''x'')]
   \<and> (\<exists>s1 s2 s3. step (main_config 2 1) Collect failure_awaiting = Some s1
         \<and> failure_lines (logged s1) = [(0, 0, OtherError ''x'')]
         \<and> step (main_config 2 1) Announce s1 = Some s2
         \<and> step (main_config 2 1) Collect s2 = Some s3
         \<and> received s3 = [JobResult 0 0 (Some (OtherError ''x'')), JobResult 1 0 None])
   \<and> reachable (main_config 2 1) demo_awaiting
   \<and> results demo_awaiting = [JobResult 0 0 (Some (OtherError ''x''))]
   \<and> step (main_config 2 1) Collect demo_awaiting = Some demo_collected
   \<and> (\<exists>s2. step (main_config 2 1) CloseQueue demo_collected = Some s2 \<and> queue_closed s2)
   \<and> status failure_final \<noteq> Running
   \<and> mset (map ResJobId (received failure_final)) = mset [0..jobs (main_config 2 1) - 1]"
proof -
  have r: "reachable (main_config 2 1) failure_awaiting"
    by (rule reachable_run [OF failure_awaiting_run])
  have h: "status failure_awaiting = Running" "mpc failure_awaiting = AwaitResult"
    "results failure_awaiting = [JobResult 0 0 (Some (OtherError ''x'')), JobResult 1 0 None]"
    by (simp_all add: failure_awaiting_def)
  have f: "run (main_config 2 1) [Collect, Announce, Collect, CloseQueue, Finish 1000]
        failure_awaiting = Some failure_final"
    using failure_final_run by (simp add: failure_actions_def)
  have rf: "reachable (main_config 2 1) failure_final"
    by (rule run_reachable [OF r f])
  have rc: "received failure_final
      = [JobResult 0 0 (Some (OtherError ''x'')), JobResult 1 0 None]"
    by (simp add: failure_final_def)
  from failure_recorded_once [OF rf]
  have "failure_lines (logged failure_final) = failures (received failure_final)"
    by (rule conjunct1)
  then have fl: "failure_lines (logged failure_final) = [(0, 0, OtherError ''x'')]"
    by (simp add: rc)
  from failure_recorded_once [OF r, where r = "JobResult 0 0 (Some (OtherError ''x''))"
      and rs = "[JobResult 1 0 None]"]
  have "status failure_awaiting = Running \<and> mpc failure_awaiting = AwaitResult
      \<and> results failure_awaiting = [JobResult 0 0 (Some (OtherError ''x'')), JobResult 1 0 None]
      \<longrightarrow>
      (\<exists>s1. step (main_config 2 1) Collect failure_awaiting = Some s1
         \<and> s1 = failure_awaiting\<lparr>results := [JobResult 1 0 None],
                  received := received failure_awaiting @ [JobResult 0 0 (Some (OtherError ''x''))],
                  logged := logged failure_awaiting @
                    (case Error (JobResult 0 0 (Some (OtherError ''x''))) of None \<Rightarrow> []
                     | Some e \<Rightarrow> [LogJobFailed (ResJobId (JobResult 0 0 (Some (OtherError ''x''))))
                          (WorkerId (JobResult 0 0 (Some (OtherError ''x'')))) e]),
                  main_i := main_i failure_awaiting + 1, mpc := LoopHead\<rparr>
         \<and> failed s1 = failed failure_awaiting
              + (if Error (JobResult 0 0 (Some (OtherError ''x''))) = None then 0 else 1)
         \<and> status s1 = Running
         \<and> (main_i s1 < jobs (main_config 2 1) \<longrightarrow>
              (\<exists>s2. step (main_config 2 1) Announce s1 = Some s2 \<and> status s2 = Running
                 \<and> mpc s2 = AwaitResult \<and> results s2 = [JobResult 1 0 None]
                 \<and> ([JobResult 1 0 None] \<noteq> [] \<longrightarrow> step (main_config 2 1) Collect s2 \<noteq> None)))
         \<and> (\<not> main_i s1 < jobs (main_config 2 1) \<longrightarrow>
              (\<exists>s2. step (main_config 2 1) CloseQueue s1 = Some s2 \<and> status s2 = Running
                 \<and> queue_closed s2)))"
    by (rule conjunct2 [THEN conjunct2, THEN conjunct1])
  with h obtain s1 where s1: "step (main_config 2 1) Collect failure_awaiting = Some s1"
    and e1: "s1 = failure_awaiting\<lparr>results := [JobResult 1 0 None],
                  received := received failure_awaiting @ [JobResult 0 0 (Some (OtherError ''x''))],
                  logged := logged failure_awaiting @
                    (case Error (JobResult 0 0 (Some (OtherError ''x''))) of None \<Rightarrow> []
                     | Some e \<Rightarrow> [LogJobFailed (ResJobId (JobResult 0 0 (Some (OtherError ''x''))))
                          (WorkerId (JobResult 0 0 (Some (OtherError ''x'')))) e]),
                  main_i := main_i failure_awaiting + 1, mpc := LoopHead\<rparr>"
    and n1: "main_i s1 < jobs (main_config 2 1) \<longrightarrow>
              (\<exists>s2. step (main_config 2 1) Announce s1 = Some s2 \<and> status s2 = Running
                 \<and> mpc s2 = AwaitResult \<and> results s2 = [JobResult 1 0 None]
                 \<and> ([JobResult 1 0 None] \<noteq> [] \<longrightarrow> step (main_config 2 1) Collect s2 \<noteq> None))"
    by blast
  from e1 have m1: "main_i s1 < jobs (main_config 2 1)"
    and l1: "failure_lines (logged s1) = [(0, 0, OtherError ''x'')]"
    and v1: "received s1 = [JobResult 0 0 (Some (OtherError ''x''))]"
    by (simp_all add: failure_awaiting_def main_config_def)
  from n1 m1 obtain s2 where s2: "step (main_config 2 1) Announce s1 = Some s2"
    and q2: "results s2 = [JobResult 1 0 None]"
    and c2: "step (main_config 2 1) Collect s2 \<noteq> None"
    by blast
  from c2 obtain s3 where s3: "step (main_config 2 1) Collect s2 = Some s3"
    by blast
  from s2 v1 have v2: "received s2 = [JobResult 0 0 (Some (OtherError ''x''))]"
    by (auto simp: step_def split: if_splits prod.splits)
  from s3 q2 v2 have v3: "received s3
      = [JobResult 0 0 (Some (OtherError ''x'')), JobResult 1 0 None]"
    by (auto simp: step_def split: if_splits)
  from s1 l1 s2 s3 v3 have ex: "\<exists>s1 s2 s3. step (main_config 2 1) Collect failure_awaiting = Some s1
         \<and> failure_lines (logged s1) = [(0, 0, OtherError ''x'')]
         \<and> step (main_config 2 1) Announce s1 = Some s2
         \<and> step (main_config 2 1) Collect s2 = Some s3
         \<and> received s3 = [JobResult 0 0 (Some (OtherError ''x'')), JobResult 1 0 None]"
    by blast
  have r': "reachable (main_config 2 1) demo_awaiting"
    by (rule reachable_run [OF demo_awaiting_run])
  have h': "status demo_awaiting = Running" "mpc demo_awaiting = AwaitResult"
    "results demo_awaiting = [JobResult 0 0 (Some (OtherError ''x''))]"
    by (simp_all add: demo_awaiting_def)
  from failure_recorded_once [OF r', where r = "JobResult 0 0 (Some (OtherError ''x''))"
      and rs = "[]"]
  have "status demo_awaiting = Running \<and> mpc demo_awaiting = AwaitResult
      \<and> results demo_awaiting = [JobResult 0 0 (Some (OtherError ''x''))] \<longrightarrow>
      (\<exists>s1. step (main_config 2 1) Collect demo_awaiting = Some s1
         \<and> s1 = demo_awaiting\<lparr>results := [],
                  received := received demo_awaiting @ [JobResult 0 0 (Some (OtherError ''x''))],
                  logged := logged demo_awaiting @
                    (case Error (JobResult 0 0 (Some (OtherError ''x''))) of None \<Rightarrow> []
                     | Some e \<Rightarrow> [LogJobFailed (ResJobId (JobResult 0 0 (Some (OtherError ''x''))))
                          (WorkerId (JobResult 0 0 (Some (OtherError ''x'')))) e]),
                  main_i := main_i demo_awaiting + 1, mpc := LoopHead\<rparr>
         \<and> failed s1 = failed demo_awaiting
              + (if Error (JobResult 0 0 (Some (OtherError ''x''))) = None then 0 else 1)
         \<and> status s1 = Running
         \<and> (main_i s1 < jobs (main_config 2 1) \<longrightarrow>
              (\<exists>s2. step (main_config 2 1) Announce s1 = Some s2 \<and> status s2 = Running
                 \<and> mpc s2 = AwaitResult \<and> results s2 = []
                 \<and> ([] \<noteq> ([] :: JobResult list) \<longrightarrow> step (main_config 2 1) Collect s2 \<noteq> None)))
         \<and> (\<not> main_i s1 < jobs (main_config 2 1) \<longrightarrow>
              (\<exists>s2. step (main_config 2 1) CloseQueue s1 = Some s2 \<and> status s2 = Running
                 \<and> queue_closed s2)))"
    by (rule conjunct2 [THEN conjunct2, THEN conjunct1])
  with h' obtain t1 where t1: "step (main_config 2 1) Collect demo_awaiting = Some t1"
    and d1: "t1 = demo_awaiting\<lparr>results := [],
                  received := received demo_awaiting @ [JobResult 0 0 (Some (OtherError ''x''))],
                  logged := logged demo_awaiting @
                    (case Error (JobResult 0 0 (Some (OtherError ''x''))) of None \<Rightarrow> []
                     | Some e \<Rightarrow> [LogJobFailed (ResJobId (JobResult 0 0 (Some (OtherError ''x''))))
                          (WorkerId (JobResult 0 0 (Some (OtherError ''x'')))) e]),
                  main_i := main_i demo_awaiting + 1, mpc := LoopHead\<rparr>"
    and k1: "\<not> main_i t1 < jobs (main_config 2 1) \<longrightarrow>
              (\<exists>s2. step (main_config 2 1) CloseQueue t1 = Some s2 \<and> status s2 = Running
                 \<and> queue_closed s2)"
    by blast
  from d1 have dc: "t1 = demo_collected"
    by (simp add: demo_awaiting_def demo_collected_def demo_final_def)
  have "\<not> main_i demo_collected < jobs (main_config 2 1)"
    by (simp add: demo_collected_def demo_final_def main_config_def)
  with k1 dc have cl: "\<exists>s2. step (main_config 2 1) CloseQueue demo_collected = Some s2
      \<and> queue_closed s2"
    by blast
  from t1 dc have co: "step (main_config 2 1) Collect demo_awaiting = Some demo_collected"
    by simp
  have nr: "status failure_final \<noteq> Running"
    by (simp add: failure_final_def)
  from failure_recorded_once [OF rf]
  have "status failure_final \<noteq> Running \<longrightarrow>
      results failure_final = []
      \<and> mset (map ResJobId (received failure_final)) = mset [0..jobs (main_config 2 1) - 1]"
    by (rule conjunct2 [THEN conjunct2, THEN conjunct2, THEN conjunct2, THEN conjunct2,
          THEN conjunct2, THEN conjunct2])
  with nr have al: "mset (map ResJobId (received failure_final))
      = mset [0..jobs (main_config 2 1) - 1]"
    by blast
  show ?thesis
    by (intro conjI r h f rc fl ex r' h'(3) co cl nr al)
qed


section \<open>Conservation\<close>

text \<open>
  C1. In every run with \<^verbatim>\<open>*jobs\<close> \<open>= N \<ge> 0\<close> main never has received more than \<open>N\<close>
  results; the job queue is closed, and main has returned, only when exactly \<open>N\<close>
  results have been received, and then the successes and the failures among them add
  up to \<open>N\<close>. While fewer than \<open>N\<close> results have been received, neither the \<^verbatim>\<open>close\<close> nor
  the final report can happen. A run in which the database does not fail has at most
  \<open>remaining\<close> steps; and with at least one worker (and channels with room, as in
  main) a running program always has such a step to take, so that it ends with the
  queue closed and exactly \<open>N\<close> results received.
\<close>

theorem coordinator_receives_all:
  assumes "reachable c s" "0 \<le> jobs c"
  shows "int (length (received s)) \<le> jobs c
     \<and> succeeded s + failed s = length (received s)
     \<and> (queue_closed s \<longrightarrow>
          int (length (received s)) = jobs c \<and> int (succeeded s + failed s) = jobs c)
     \<and> (status s = Exited \<longrightarrow> queue_closed s)
     \<and> (int (length (received s)) < jobs c \<longrightarrow>
          step c CloseQueue s = None \<and> step c (Finish elapsed) s = None)
     \<and> (run c as s = Some t \<and> (\<forall>a\<in>set as. \<not> failing a) \<longrightarrow>
          length as \<le> remaining c s)
     \<and> (0 < workers c \<and> 0 < queue_cap c \<and> 0 < results_cap c \<longrightarrow>
          (status s = Running \<longrightarrow> (\<exists>a s'. \<not> failing a \<and> step c a s = Some s'))
          \<and> (\<exists>bs s'. (\<forall>a\<in>set bs. \<not> failing a) \<and> run c bs s = Some s'
                \<and> status s' \<noteq> Running \<and> queue_closed s'
                \<and> int (length (received s')) = jobs c))"
proof -
  from reachable_invariant [OF assms(1)]
  have m: "inv_main c s" and src: "inv_source c s" and st: "inv_status c s"
    by (simp_all add: invariant_def)
  have sf: "succeeded s + failed s = length (received s)"
    unfolding succeeded_def failed_def
    using sum_length_filter_compl [of "\<lambda>r. Error r = None" "received s"] by simp
  have "length (received s) \<le> size (tokens s)"
    by (simp add: size_tokens emitted_def)
  also have "\<dots> = nat (src_i s)"
    by (rule size_tokens_source [OF src])
  finally have le: "int (length (received s)) \<le> jobs c"
    using src assms(2) by (auto simp: inv_source_def)
  have cl: "int (length (received s)) = jobs c" if "queue_closed s"
    using that m le by (auto simp: inv_main_def)
  have ex: "queue_closed s" if "status s = Exited"
    using that st m by (auto simp: inv_status_def inv_main_def)
  have blocked: "step c CloseQueue s = None \<and> step c (Finish elapsed) s = None"
    if "int (length (received s)) < jobs c"
    using that m by (auto simp: inv_main_def step_def)
  have bound: "length as \<le> remaining c s"
    if "run c as s = Some t" "\<forall>a\<in>set as. \<not> failing a"
    using good_run_bounded [OF that] by simp
  have live: "(status s = Running \<longrightarrow> (\<exists>a s'. \<not> failing a \<and> step c a s = Some s'))
          \<and> (\<exists>bs s'. (\<forall>a\<in>set bs. \<not> failing a) \<and> run c bs s = Some s'
                \<and> status s' \<noteq> Running \<and> queue_closed s'
                \<and> int (length (received s')) = jobs c)"
    if w: "0 < workers c" "0 < queue_cap c" "0 < results_cap c"
  proof -
    have a: "\<exists>a s'. \<not> failing a \<and> step c a s = Some s'" if "status s = Running"
      by (rule never_stuck [OF assms(1) that w])
    from completes [OF assms(1) w]
    obtain bs s' where b: "\<forall>a\<in>set bs. \<not> failing a" "run c bs s = Some s'"
      "status s' \<noteq> Running"
      by blast
    from run_reachable [OF assms(1) b(2)] have r: "reachable c s'" .
    from finished_all_received [OF r b(3)]
    have q: "queue_closed s'" and ms: "mset (map ResJobId (received s')) = mset [0..jobs c - 1]"
      by simp_all
    from ms have "size (mset (map ResJobId (received s'))) = size (mset [0..jobs c - 1])"
      by simp
    with assms(2) have "int (length (received s')) = jobs c"
      by simp
    with b q a show ?thesis by blast
  qed
  have c3: "queue_closed s \<longrightarrow>
      int (length (received s)) = jobs c \<and> int (succeeded s + failed s) = jobs c"
    using cl sf by simp
  have c4: "status s = Exited \<longrightarrow> queue_closed s"
    using ex by blast
  have c5: "int (length (received s)) < jobs c \<longrightarrow>
      step c CloseQueue s = None \<and> step c (Finish elapsed) s = None"
    using blocked by blast
  have c6: "run c as s = Some t \<and> (\<forall>a\<in>set as. \<not> failing a) \<longrightarrow>
      length as \<le> remaining c s"
    using bound by blast
  have c7: "0 < workers c \<and> 0 < queue_cap c \<and> 0 < results_cap c \<longrightarrow>
          (status s = Running \<longrightarrow> (\<exists>a s'. \<not> failing a \<and> step c a s = Some s'))
          \<and> (\<exists>bs s'. (\<forall>a\<in>set bs. \<not> failing a) \<and> run c bs s = Some s'
                \<and> status s' \<noteq> Running \<and> queue_closed s'
                \<and> int (length (received s')) = jobs c)"
    using live by blast
  show ?thesis
    by (rule conjI [OF le conjI [OF sf conjI [OF c3 conjI [OF c4 conjI [OF c5 conjI [OF c6 c7]]]]]])
qed

theorem coordinator_receives_all_witness:
  "reachable (main_config 2 1) demo_final \<and> 0 \<le> jobs (main_config 2 1)
   \<and> queue_closed demo_final \<and> status demo_final = Exited
   \<and> int (length (received demo_final)) = jobs (main_config 2 1)
   \<and> int (succeeded demo_final + failed demo_final) = jobs (main_config 2 1)"
proof -
  have j: "0 \<le> jobs (main_config 2 1)" by (simp add: main_config_def)
  have q: "queue_closed demo_final" "status demo_final = Exited"
    by (simp_all add: demo_final_def)
  from coordinator_receives_all [OF demo_reachable j]
  have "queue_closed demo_final \<longrightarrow>
      int (length (received demo_final)) = jobs (main_config 2 1)
      \<and> int (succeeded demo_final + failed demo_final) = jobs (main_config 2 1)"
    by (rule conjunct2 [THEN conjunct2, THEN conjunct1])
  with q j demo_reachable show ?thesis by simp
qed

lemma starved_0:
  assumes "0 < jobs c" "0 < queue_cap c"
  shows "run c [SourcePush] (init c) = Some (starved c 0)"
  using assms by (simp add: step_def init_def starved_def)

lemma starved_step:
  assumes "workers c = 1" "0 < queue_cap c"
  shows "run c starve_round (starved c n) = Some (starved c (Suc n))"
  using assms
  by (simp add: starve_round_def starved_def step_def init_def replicate_append_same)

lemma starved_run:
  assumes "workers c = 1" "0 < queue_cap c" "0 < jobs c"
  shows "run c (SourcePush # concat (replicate n starve_round)) (init c) = Some (starved c n)"
proof (induction n)
  case 0
  from starved_0 [OF assms(3,2)] show ?case by simp
next
  case (Suc n)
  have c: "concat (replicate (Suc n) starve_round) = concat (replicate n starve_round) @ starve_round"
    by (induction n) simp_all
  have "SourcePush # concat (replicate (Suc n) starve_round)
      = (SourcePush # concat (replicate n starve_round)) @ starve_round"
    by (simp only: c append_Cons)
  with Suc starved_step [OF assms(1,2), of n] show ?case
    by (simp only: run_append option.case)
qed

text \<open>
  C2, as stated, fails. Nothing bounds the number of times a job is re-submitted. With
  five jobs and one worker, the \<^verbatim>\<open>Insert\<close> of job 0 meets a lost connection six times in
  a row: the program is still running, job 0 is back in the queue, no result has been
  emitted and main waits at its receive. By \<open>starved_run\<close> the same holds after any
  number of rounds.
\<close>

theorem retried_job_without_result:
  "run (main_config 5 1) (SourcePush # concat (replicate 6 starve_round))
     (init (main_config 5 1)) = Some (starved (main_config 5 1) 6)
   \<and> status (starved (main_config 5 1) 6) = Running
   \<and> queue (starved (main_config 5 1) 6) = [Job 0]
   \<and> emitted (starved (main_config 5 1) 6) = []
   \<and> received (starved (main_config 5 1) 6) = []
   \<and> step (main_config 5 1) Collect (starved (main_config 5 1) 6) = None"
proof -
  have h: "workers (main_config 5 1) = 1" "0 < queue_cap (main_config 5 1)"
    "0 < jobs (main_config 5 1)"
    by (simp_all add: main_config_def)
  from starved_run [OF h, of 6] show ?thesis
    by (simp add: starved_def init_def emitted_def step_def)
qed

text \<open>
  C2, amended. In every reachable state the results emitted so far (received by main or
  waiting in the results channel) carry pairwise different job ids, all in
  \<open>[0, \<close>\<^verbatim>\<open>*jobs\<close>\<open>)\<close>: no job is ever answered twice, however often it was re-submitted.
  Every job the source has produced is in exactly one place (job queue, waiting
  re-submission, worker, emitted result), so none is lost; and once main has closed the
  queue, which it does after \<^verbatim>\<open>*jobs\<close> results, every id of \<open>[0, \<close>\<^verbatim>\<open>*jobs\<close>\<open>)\<close> has exactly
  one result. A result is built when \<^verbatim>\<open>Insert\<close> returns without a lost connection, from
  the job's id and the id of the worker, and it is that worker that sends it. A job has
  no result while its attempts meet a lost connection; it gets its one result once the
  database stops failing. From every reachable state, whatever failures came before: a
  run without a further failure has at most \<open>remaining\<close> steps; with at least one worker
  and room in the channels it always has a step to take while the program is running;
  and when no such step is left the program has ended and every job has its one
  result received. One such run to the end always exists.
\<close>

theorem one_result_per_job:
  assumes "reachable c s"
  shows "distinct (map ResJobId (emitted s))
     \<and> set (map ResJobId (emitted s)) \<subseteq> {0..<jobs c}
     \<and> mset (map JobId (queue s)) + mset (map JobId (retries s))
         + image_mset JobId (\<Sum>pc\<leftarrow>pool s. held pc) + mset (map ResJobId (emitted s))
         = mset [0..src_i s - 1]
     \<and> (queue_closed s \<longrightarrow> mset (map ResJobId (emitted s)) = mset [0..jobs c - 1])
     \<and> (\<forall>r\<in>set (emitted s). 0 \<le> WorkerId r \<and> WorkerId r < workers c)
     \<and> (status s = Running \<and> w < length (pool s) \<and> pool s ! w = Inserting job
          \<and> err \<noteq> Some EOF \<and> err \<noteq> Some ErrUnexpectedEOF \<longrightarrow>
          (\<exists>s'. step c (Insert w err) s = Some s'
              \<and> pool s' ! w = Sending (JobResult (JobId job) (int w) err)
              \<and> emitted s' = emitted s))
     \<and> (step c (Send w) s = Some s' \<longrightarrow>
          (\<exists>r. pool s ! w = Sending r \<and> WorkerId r = int w
              \<and> ResJobId r \<notin> set (map ResJobId (emitted s))
              \<and> emitted s' = emitted s @ [r]))
     \<and> (0 < workers c \<and> 0 < queue_cap c \<and> 0 < results_cap c \<longrightarrow>
          (\<exists>bs t. (\<forall>a\<in>set bs. \<not> failing a) \<and> run c bs s = Some t
              \<and> status t \<noteq> Running
              \<and> mset (map ResJobId (received t)) = mset [0..jobs c - 1]))
     \<and> (run c as s = Some v \<and> (\<forall>a\<in>set as. \<not> failing a) \<longrightarrow>
          length as \<le> remaining c s
          \<and> (0 < workers c \<and> 0 < queue_cap c \<and> 0 < results_cap c \<longrightarrow>
               (status v = Running \<longrightarrow> (\<exists>a v'. \<not> failing a \<and> step c a v = Some v'))
               \<and> ((\<forall>a. \<not> failing a \<longrightarrow> step c a v = None) \<longrightarrow>
                    status v \<noteq> Running
                    \<and> distinct (map ResJobId (received v))
                    \<and> mset (map ResJobId (received v)) = mset [0..jobs c - 1])))"
proof -
  from reachable_invariant [OF assms]
  have m: "inv_main c s" and src: "inv_source c s" and pl: "inv_pool c s"
    by (simp_all add: invariant_def)
  note ids = job_ids [OF src]
  have sub: "mset (map ResJobId (emitted s)) \<subseteq># mset [0..src_i s - 1]"
    unfolding ids [symmetric] by simp
  have d: "distinct (map ResJobId (emitted s))"
    by (rule distinct_mset_subseteq [OF sub]) simp
  have "set (map ResJobId (emitted s)) \<subseteq> set [0..src_i s - 1]"
    using set_mset_mono [OF sub] by simp
  also have "\<dots> \<subseteq> {0..<jobs c}"
    using src by (auto simp: inv_source_def)
  finally have rng: "set (map ResJobId (emitted s)) \<subseteq> {0..<jobs c}" .
  have cl: "mset (map ResJobId (emitted s)) = mset [0..jobs c - 1]" if "queue_closed s"
  proof -
    from closed_all_emitted [OF m src that]
    have e: "queue s = []" "retries s = []" "(\<Sum>pc\<leftarrow>pool s. held pc) = {#}"
      and ge: "\<not> src_i s < jobs c"
      by simp_all
    from ge src have "[0..src_i s - 1] = [0..jobs c - 1]"
      by (auto simp: inv_source_def)
    with ids e show ?thesis by simp
  qed
  from pl have wk: "\<forall>r\<in>set (emitted s). 0 \<le> WorkerId r \<and> WorkerId r < workers c"
    by (simp add: inv_pool_def)
  have ins: "\<exists>s'. step c (Insert w err) s = Some s'
              \<and> pool s' ! w = Sending (JobResult (JobId job) (int w) err)
              \<and> emitted s' = emitted s"
    if "status s = Running" "w < length (pool s)" "pool s ! w = Inserting job"
      "err \<noteq> Some EOF" "err \<noteq> Some ErrUnexpectedEOF"
    using that by (simp add: step_def emitted_def)
  have snd: "\<exists>r. pool s ! w = Sending r \<and> WorkerId r = int w
              \<and> ResJobId r \<notin> set (map ResJobId (emitted s)) \<and> emitted s' = emitted s @ [r]"
    if st: "step c (Send w) s = Some s'"
  proof -
    from st obtain r where r: "w < length (pool s)" "pool s ! w = Sending r"
      "emitted s' = emitted s @ [r]"
      by (auto simp: step_def emitted_def split: if_splits worker_pc.splits)
    from pl r have t: "WorkerId r = int w"
      by (simp add: inv_pool_def)
    from reachable_step [OF assms st] have "reachable c s'" .
    from reachable_invariant [OF this] have "inv_source c s'"
      by (simp add: invariant_def)
    from job_ids [OF this]
    have "mset (map ResJobId (emitted s')) \<subseteq># mset [0..src_i s' - 1]"
      by (metis mset_subset_eq_add_right)
    then have "distinct (map ResJobId (emitted s'))"
      by (rule distinct_mset_subseteq) simp
    with r(3) have "ResJobId r \<notin> set (map ResJobId (emitted s))"
      by simp
    with r t show ?thesis by blast
  qed
  have live: "\<exists>bs t. (\<forall>a\<in>set bs. \<not> failing a) \<and> run c bs s = Some t
              \<and> status t \<noteq> Running
              \<and> mset (map ResJobId (received t)) = mset [0..jobs c - 1]"
    if w: "0 < workers c" "0 < queue_cap c" "0 < results_cap c"
  proof -
    from completes [OF assms w]
    obtain bs t where b: "\<forall>a\<in>set bs. \<not> failing a" "run c bs s = Some t"
      "status t \<noteq> Running"
      by blast
    from run_reachable [OF assms b(2)] have "reachable c t" .
    from finished_all_received [OF this b(3)] b show ?thesis
      by blast
  qed
  have c4: "queue_closed s \<longrightarrow> mset (map ResJobId (emitted s)) = mset [0..jobs c - 1]"
    using cl by blast
  have c6: "status s = Running \<and> w < length (pool s) \<and> pool s ! w = Inserting job
          \<and> err \<noteq> Some EOF \<and> err \<noteq> Some ErrUnexpectedEOF \<longrightarrow>
          (\<exists>s'. step c (Insert w err) s = Some s'
              \<and> pool s' ! w = Sending (JobResult (JobId job) (int w) err)
              \<and> emitted s' = emitted s)"
    using ins by blast
  have c7: "step c (Send w) s = Some s' \<longrightarrow>
          (\<exists>r. pool s ! w = Sending r \<and> WorkerId r = int w
              \<and> ResJobId r \<notin> set (map ResJobId (emitted s))
              \<and> emitted s' = emitted s @ [r])"
    using snd by blast
  have c8: "0 < workers c \<and> 0 < queue_cap c \<and> 0 < results_cap c \<longrightarrow>
          (\<exists>bs t. (\<forall>a\<in>set bs. \<not> failing a) \<and> run c bs s = Some t
              \<and> status t \<noteq> Running
              \<and> mset (map ResJobId (received t)) = mset [0..jobs c - 1])"
    using live by blast
  have c9: "run c as s = Some v \<and> (\<forall>a\<in>set as. \<not> failing a) \<longrightarrow>
          length as \<le> remaining c s
          \<and> (0 < workers c \<and> 0 < queue_cap c \<and> 0 < results_cap c \<longrightarrow>
               (status v = Running \<longrightarrow> (\<exists>a v'. \<not> failing a \<and> step c a v = Some v'))
               \<and> ((\<forall>a. \<not> failing a \<longrightarrow> step c a v = None) \<longrightarrow>
                    status v \<noteq> Running
                    \<and> distinct (map ResJobId (received v))
                    \<and> mset (map ResJobId (received v)) = mset [0..jobs c - 1]))"
  proof (intro impI, elim conjE)
    assume rs: "run c as s = Some v" and g: "\<forall>a\<in>set as. \<not> failing a"
    from good_run_bounded [OF rs g] have bd: "length as \<le> remaining c s"
      by simp
    from run_reachable [OF assms rs] have rv: "reachable c v" .
    have lv: "(status v = Running \<longrightarrow> (\<exists>a v'. \<not> failing a \<and> step c a v = Some v'))
               \<and> ((\<forall>a. \<not> failing a \<longrightarrow> step c a v = None) \<longrightarrow>
                    status v \<noteq> Running
                    \<and> distinct (map ResJobId (received v))
                    \<and> mset (map ResJobId (received v)) = mset [0..jobs c - 1])"
      if w: "0 < workers c" "0 < queue_cap c" "0 < results_cap c"
    proof -
      have ns: "\<exists>a v'. \<not> failing a \<and> step c a v = Some v'" if "status v = Running"
        by (rule never_stuck [OF rv that w])
      have fin: "status v \<noteq> Running
                    \<and> distinct (map ResJobId (received v))
                    \<and> mset (map ResJobId (received v)) = mset [0..jobs c - 1]"
        if stuck: "\<forall>a. \<not> failing a \<longrightarrow> step c a v = None"
      proof -
        from ns stuck have nr: "status v \<noteq> Running"
          by fastforce
        from finished_all_received [OF rv nr]
        have ms: "mset (map ResJobId (received v)) = mset [0..jobs c - 1]"
          by simp
        then have "mset (map ResJobId (received v)) \<subseteq># mset [0..jobs c - 1]"
          by simp
        then have "distinct (map ResJobId (received v))"
          by (rule distinct_mset_subseteq) simp
        with nr ms show ?thesis by simp
      qed
      from ns fin show ?thesis by blast
    qed
    from bd lv show "length as \<le> remaining c s
          \<and> (0 < workers c \<and> 0 < queue_cap c \<and> 0 < results_cap c \<longrightarrow>
               (status v = Running \<longrightarrow> (\<exists>a v'. \<not> failing a \<and> step c a v = Some v'))
               \<and> ((\<forall>a. \<not> failing a \<longrightarrow> step c a v = None) \<longrightarrow>
                    status v \<noteq> Running
                    \<and> distinct (map ResJobId (received v))
                    \<and> mset (map ResJobId (received v)) = mset [0..jobs c - 1]))"
      by blast
  qed
  show ?thesis
    by (rule conjI [OF d conjI [OF rng conjI [OF ids conjI [OF c4 conjI [OF wk
          conjI [OF c6 conjI [OF c7 conjI [OF c8 c9]]]]]]]])
qed

theorem one_result_per_job_witness:
  "reachable (main_config 2 1) demo_final \<and> queue_closed demo_final
   \<and> map ResJobId (emitted demo_final) = [1, 0]
   \<and> distinct (map ResJobId (emitted demo_final))
   \<and> mset (map ResJobId (emitted demo_final)) = mset [0..jobs (main_config 2 1) - 1]
   \<and> map WorkerId (emitted demo_final) = [0, 0]
   \<and> run (main_config 2 1) (drop 17 demo_actions) demo_collected = Some demo_final
   \<and> length (drop 17 demo_actions) \<le> remaining (main_config 2 1) demo_collected"
proof -
  have q: "queue_closed demo_final"
    by (simp add: demo_final_def)
  have e: "map ResJobId (emitted demo_final) = [1, 0]" "map WorkerId (emitted demo_final) = [0, 0]"
    by (simp_all add: demo_final_def emitted_def)
  note t = one_result_per_job [OF demo_reachable, where s' = demo_final]
  from t have d: "distinct (map ResJobId (emitted demo_final))"
    by (rule conjunct1)
  from t have "queue_closed demo_final \<longrightarrow>
      mset (map ResJobId (emitted demo_final)) = mset [0..jobs (main_config 2 1) - 1]"
    by (rule conjunct2 [THEN conjunct2, THEN conjunct2, THEN conjunct1])
  with q have ms: "mset (map ResJobId (emitted demo_final)) = mset [0..jobs (main_config 2 1) - 1]"
    by blast
  have rc: "reachable (main_config 2 1) demo_collected"
    by (rule reachable_run [OF demo_collected_run])
  have rn: "run (main_config 2 1) (drop 17 demo_actions) demo_collected = Some demo_final"
    by (simp add: demo_actions_def demo_collected_def demo_final_def main_config_def step_def
          statistics_def int64_div_def signed_divide_int_def signed_take_bit_int_eq_self)
  have g: "\<forall>a\<in>set (drop 17 demo_actions). \<not> failing a"
    by (simp add: demo_actions_def)
  note t' = one_result_per_job [OF rc, where as = "drop 17 demo_actions" and v = demo_final]
  from t' have "run (main_config 2 1) (drop 17 demo_actions) demo_collected = Some demo_final
      \<and> (\<forall>a\<in>set (drop 17 demo_actions). \<not> failing a) \<longrightarrow>
      length (drop 17 demo_actions) \<le> remaining (main_config 2 1) demo_collected
      \<and> (0 < workers (main_config 2 1) \<and> 0 < queue_cap (main_config 2 1)
           \<and> 0 < results_cap (main_config 2 1) \<longrightarrow>
          (status demo_final = Running \<longrightarrow>
             (\<exists>a v'. \<not> failing a \<and> step (main_config 2 1) a demo_final = Some v'))
          \<and> ((\<forall>a. \<not> failing a \<longrightarrow> step (main_config 2 1) a demo_final = None) \<longrightarrow>
               status demo_final \<noteq> Running
               \<and> distinct (map ResJobId (received demo_final))
               \<and> mset (map ResJobId (received demo_final)) = mset [0..jobs (main_config 2 1) - 1]))"
    by (rule conjunct2 [THEN conjunct2, THEN conjunct2, THEN conjunct2, THEN conjunct2,
          THEN conjunct2, THEN conjunct2, THEN conjunct2])
  with rn g have bd: "length (drop 17 demo_actions) \<le> remaining (main_config 2 1) demo_collected"
    by blast
  show ?thesis
    by (intro conjI demo_reachable q e d ms rn bd)
qed

end
